theory Spec2Isabelle
  imports Main
begin

text \<open>
  A model of the server monitoring bot: the class \<open>ServerMonitoringBot\<close> and the
  \<open>config\<close> object it reads. Each method is a function of the same name. What a method
  awaits from outside (an HTTP GET, a POST to the webhook, a timer, the clock) is read from
  an environment; what it does to the outside is returned as a list of effects; the
  \<open>serverStatus\<close> map is passed in and returned; a thrown error or a rejected promise is
  \<open>Inl\<close> of its message. Building a message and formatting a date are taken to succeed.
\<close>

section \<open>Configuration (config.js)\<close>

text \<open>
  The \<open>config\<close> object of config.js. Numbers are JavaScript numbers holding integers
  (they come from \<open>parseInt\<close>), modelled as \<open>int\<close>. \<open>webhookUrl\<close> is
  \<open>process.env.LARK_WEBHOOK_URL\<close>, which may be undefined.
\<close>

record config =
  monitoringInterval :: string
  requestTimeout :: int
  retryAttempts :: int
  retryDelay :: int
  webhookUrl :: "string option"
  serverUrls :: "string list"
  successStatusCodes :: "int list"
  enableVerboseLogging :: bool
  sendRecoveryNotifications :: bool

text \<open>The values config.js uses when the environment sets none of the variables.\<close>

definition default_config :: "string option \<Rightarrow> config" where
  "default_config webhook =
     \<lparr> monitoringInterval = ''* * * * *'',
       requestTimeout = 10000,
       retryAttempts = 3,
       retryDelay = 1000,
       webhookUrl = webhook,
       serverUrls = [''https://httpbin.org/status/200'',
                     ''https://jsonplaceholder.typicode.com/posts/1'',
                     ''https://api.github.com''],
       successStatusCodes = [200, 201, 202, 204, 301, 302, 304],
       enableVerboseLogging = False,
       sendRecoveryNotifications = True \<rparr>"

section \<open>Data model\<close>

text \<open>
  The objects stored in the \<open>serverStatus\<close> map. A field that the object literal
  leaves out, or sets to \<open>null\<close>, is \<open>None\<close>. \<open>lastCheck\<close> is a \<open>Date\<close>,
  modelled by its millisecond timestamp.
\<close>

record StatusRecord =
  isUp :: bool
  lastCheck :: "int option"
  consecutiveFailures :: int
  statusCode :: "int option"
  responseTime :: "int option"
  error :: "string option"

text \<open>
  The object \<open>makeHttpRequest\<close> returns: \<open>{ status, responseTime }\<close>. Its second
  field is read by \<open>elapsed\<close>, since \<open>responseTime\<close> names the field of the record above.
\<close>

datatype response = Response (status: int) (elapsed: int)

text \<open>
  What one \<open>axios.get\<close> does: it resolves with an HTTP status (\<open>validateStatus\<close>
  accepts every status), or it rejects with an error message (timeout, connection
  refused, DNS failure). The second component is how long the call took, in ms.
\<close>

datatype attempt_outcome =
    is_response: HttpResponse (http_status: int) (took: int)
  | is_failure: TransportFailure (failure_message: string) (took: int)

text \<open>
  What one \<open>axios.post\<close> to the webhook does: it resolves with a status, or rejects.
\<close>

datatype post_outcome = PostResponse int | PostFailure string

text \<open>
  The payload of a webhook message, as the data its text template interpolates:
  the DOWN alert carries the URL, \<open>status.error || 'No response'\<close>, the failure count
  and the time of the check; the recovery notification carries the URL, the status
  code, the response time and the time of the check. The time stands for the string
  \<open>formatVietnamTime\<close> makes of it.
\<close>

datatype message =
    is_DownAlert: DownAlert string string int "int option"
  | is_RecoveryAlert: RecoveryAlert string "int option" "int option" "int option"

datatype log_line =
    LogStatus string int int
  | LogError string string
  | LogDownDetected string
  | LogRecovered string
  | LogSent string
  | LogSendFailedHttp string int
  | LogSendError string string

text \<open>
  The effects a check has on the outside world, in the order it performs them:
  GET number \<open>n\<close> to the target, a sleep of the requested number of ms, a POST to the
  webhook, a console line.
\<close>

datatype effect =
    is_Get: Get int
  | is_Sleep: Sleep int
  | is_Post: Post (posted: message)
  | is_Log: Log log_line

text \<open>
  The environment of one check: the outcome of its \<open>n\<close>-th GET, the outcome of a
  POST of a message, the time a timer set for \<open>ms\<close> takes to fire, and the value of
  \<open>Date.now()\<close> when the check starts.
\<close>

record check_env =
  axios_get :: "int \<Rightarrow> attempt_outcome"
  axios_post :: "message \<Rightarrow> post_outcome"
  slept :: "int \<Rightarrow> int"
  started :: int

section \<open>Number to string\<close>

fun show_nat :: "nat \<Rightarrow> string" where
  "show_nat n =
     (if n < 10 then [''0123456789'' ! n]
      else show_nat (n div 10) @ [''0123456789'' ! (n mod 10)])"

declare show_nat.simps [simp del]

definition show_int :: "int \<Rightarrow> string" where
  "show_int i = (if i < 0 then CHR ''-'' # show_nat (nat (- i)) else show_nat (nat i))"

section \<open>The probe: makeHttpRequest\<close>

text \<open>
  The \<open>for\<close> loop of \<open>makeHttpRequest\<close>, from the iteration \<open>attempt\<close> on, entered at
  clock value \<open>now\<close>. The result is what the promise settles to (\<open>Inl\<close> the message
  of the thrown \<open>Error\<close>; \<open>Inr None\<close> the \<open>undefined\<close> that falls out of a loop whose
  condition fails), the clock at that moment, and the effects performed.
\<close>

function makeHttpRequest_loop ::
  "config \<Rightarrow> check_env \<Rightarrow> int \<Rightarrow> int \<Rightarrow> int \<Rightarrow> (string + response option) \<times> int \<times> effect list"
where
  "makeHttpRequest_loop cfg env startTime attempt now =
     (if attempt \<le> retryAttempts cfg then
        (case axios_get env attempt of
           HttpResponse s d \<Rightarrow>
             (Inr (Some (Response s (now + d - startTime))), now + d, [Get attempt])
         | TransportFailure m d \<Rightarrow>
             if attempt = retryAttempts cfg then
               (Inl (''Request failed after '' @ show_int (retryAttempts cfg) @ '' attempts: '' @ m),
                now + d, [Get attempt])
             else
               (case makeHttpRequest_loop cfg env startTime (attempt + 1)
                       (now + d + slept env (retryDelay cfg * attempt)) of
                  (r, t, es) \<Rightarrow> (r, t, Get attempt # Sleep (retryDelay cfg * attempt) # es)))
      else (Inr None, now, []))"
  by pat_completeness auto
termination
  by (relation "measure (\<lambda>(cfg, env, startTime, attempt, now). nat (retryAttempts cfg + 1 - attempt))")
     auto

declare makeHttpRequest_loop.simps [simp del]

definition makeHttpRequest ::
  "config \<Rightarrow> check_env \<Rightarrow> (string + response option) \<times> int \<times> effect list" where
  "makeHttpRequest cfg env = makeHttpRequest_loop cfg env (started env) 1 (started env)"

section \<open>Notifications\<close>

text \<open>
  \<open>sendWebhookMessage\<close>: one POST inside a \<open>try\<close>; every outcome ends in a console
  line. The result is what the promise settles to (\<open>Inl\<close> would be a rejection).
\<close>

definition sendWebhookMessage ::
  "check_env \<Rightarrow> message \<Rightarrow> string \<Rightarrow> (string + unit) \<times> effect list" where
  "sendWebhookMessage env msg messageType =
     (case axios_post env msg of
        PostResponse s \<Rightarrow>
          if s = 200 then (Inr (), [Post msg, Log (LogSent messageType)])
          else (Inr (), [Post msg, Log (LogSendFailedHttp messageType s)])
      | PostFailure m \<Rightarrow> (Inr (), [Post msg, Log (LogSendError messageType m)]))"

definition sendDownAlert ::
  "check_env \<Rightarrow> string \<Rightarrow> StatusRecord \<Rightarrow> (string + unit) \<times> effect list" where
  "sendDownAlert env url st =
     sendWebhookMessage env
       (DownAlert url
          (case error st of
             None \<Rightarrow> ''No response''
           | Some e \<Rightarrow> if e = [] then ''No response'' else e)
          (consecutiveFailures st) (lastCheck st))
       ''DOWN alert''"

definition sendRecoveryAlert ::
  "check_env \<Rightarrow> string \<Rightarrow> StatusRecord \<Rightarrow> (string + unit) \<times> effect list" where
  "sendRecoveryAlert env url st =
     sendWebhookMessage env
       (RecoveryAlert url (statusCode st) (responseTime st) (lastCheck st))
       ''recovery notification''"

text \<open>
  The message of the \<open>TypeError\<close> that reading property \<open>p\<close> of \<open>undefined\<close>
  throws (the wording of the JavaScript engine of Node 18).
\<close>

definition undefined_read :: "string \<Rightarrow> string" where
  "undefined_read p = ''Cannot read properties of undefined (reading '' @ [CHR 0x27] @ p @ [CHR 0x27] @ '')''"

text \<open>
  \<open>handleStatusChange\<close>: two \<open>if\<close> statements in sequence. \<open>previousStatus\<close> is
  what \<open>Map.get\<close> returned: \<open>None\<close> is \<open>undefined\<close>, and reading its \<open>isUp\<close> throws.
\<close>

definition handleStatusChange ::
  "config \<Rightarrow> check_env \<Rightarrow> string \<Rightarrow> StatusRecord option \<Rightarrow> StatusRecord
     \<Rightarrow> (string + unit) \<times> effect list" where
  "handleStatusChange cfg env url previousStatus currentStatus =
     (case previousStatus of
        None \<Rightarrow> (Inl (undefined_read ''isUp''), [])
      | Some p \<Rightarrow>
          (case (if isUp p \<and> \<not> isUp currentStatus then
                   (case sendDownAlert env url currentStatus of
                      (r, es) \<Rightarrow> (r, Log (LogDownDetected url) # es))
                 else (Inr (), [])) of
             (Inl e, es1) \<Rightarrow> (Inl e, es1)
           | (Inr u, es1) \<Rightarrow>
               (case (if \<not> isUp p \<and> isUp currentStatus \<and> sendRecoveryNotifications cfg then
                        (case sendRecoveryAlert env url currentStatus of
                           (r, es) \<Rightarrow> (r, Log (LogRecovered url) # es))
                      else (Inr (), [])) of
                  (r, es2) \<Rightarrow> (r, es1 @ es2))))"

section \<open>One check: checkServerHealth\<close>

text \<open>
  The \<open>try\<close> block, given what \<open>makeHttpRequest\<close> settled to at clock value \<open>t\<close>:
  \<open>Inl\<close> is the message of the error that leaves the block.
\<close>

definition try_block ::
  "config \<Rightarrow> string \<Rightarrow> StatusRecord option \<Rightarrow> (string + response option) \<Rightarrow> int
     \<Rightarrow> string + StatusRecord \<times> effect list" where
  "try_block cfg url previousStatus probe t =
     (case probe of
        Inl m \<Rightarrow> Inl m
      | Inr None \<Rightarrow> Inl (undefined_read ''status'')
      | Inr (Some r) \<Rightarrow>
          (let up = (status r \<in> set (successStatusCodes cfg));
               logs = (if enableVerboseLogging cfg then [Log (LogStatus url (status r) (elapsed r))] else [])
           in if up then
                Inr (\<lparr> isUp = True, lastCheck = Some t, consecutiveFailures = 0,
                       statusCode = Some (status r), responseTime = Some (elapsed r),
                       error = None \<rparr>, logs)
              else
                (case previousStatus of
                   None \<Rightarrow> Inl (undefined_read ''consecutiveFailures'')
                 | Some p \<Rightarrow>
                     Inr (\<lparr> isUp = False, lastCheck = Some t,
                            consecutiveFailures = consecutiveFailures p + 1,
                            statusCode = Some (status r), responseTime = Some (elapsed r),
                            error = None \<rparr>, logs))))"

text \<open>The \<open>catch\<close> block, for the error message \<open>m\<close>.\<close>

definition catch_block ::
  "string \<Rightarrow> StatusRecord option \<Rightarrow> string \<Rightarrow> int \<Rightarrow> string + StatusRecord \<times> effect list" where
  "catch_block url previousStatus m t =
     (case previousStatus of
        None \<Rightarrow> Inl (undefined_read ''consecutiveFailures'')
      | Some p \<Rightarrow>
          Inr (\<lparr> isUp = False, lastCheck = Some t,
                 consecutiveFailures = consecutiveFailures p + 1,
                 statusCode = None, responseTime = None, error = Some m \<rparr>,
               [Log (LogError url m)]))"

text \<open>
  \<open>checkServerHealth\<close> after its first statement, which reads \<open>previousStatus\<close>
  from the map before anything is awaited. The result is what the promise settles
  to, the map afterwards, and the effects.
\<close>

definition checkServerHealth_from ::
  "config \<Rightarrow> check_env \<Rightarrow> string \<Rightarrow> StatusRecord option \<Rightarrow> (string \<rightharpoonup> StatusRecord)
     \<Rightarrow> (string + StatusRecord) \<times> (string \<rightharpoonup> StatusRecord) \<times> effect list" where
  "checkServerHealth_from cfg env url previousStatus serverStatus =
     (case makeHttpRequest cfg env of
        (probe, t, es) \<Rightarrow>
          (case (case try_block cfg url previousStatus probe t of
                   Inl m \<Rightarrow> catch_block url previousStatus m t
                 | Inr x \<Rightarrow> Inr x) of
             Inl e \<Rightarrow> (Inl e, serverStatus, es)
           | Inr (currentStatus, ls) \<Rightarrow>
               (case handleStatusChange cfg env url previousStatus currentStatus of
                  (Inl e, hs) \<Rightarrow> (Inl e, serverStatus(url \<mapsto> currentStatus), es @ ls @ hs)
                | (Inr u, hs) \<Rightarrow>
                    (Inr currentStatus, serverStatus(url \<mapsto> currentStatus), es @ ls @ hs))))"

definition checkServerHealth ::
  "config \<Rightarrow> check_env \<Rightarrow> string \<Rightarrow> (string \<rightharpoonup> StatusRecord)
     \<Rightarrow> (string + StatusRecord) \<times> (string \<rightharpoonup> StatusRecord) \<times> effect list" where
  "checkServerHealth cfg env url serverStatus =
     checkServerHealth_from cfg env url (serverStatus url) serverStatus"

section \<open>Cycles: performHealthCheck under the scheduler\<close>

text \<open>
  \<open>start\<close> starts the cron job and then runs the first cycle, and nothing keeps a tick
  of the cron job from starting a cycle while the checks of an earlier cycle still wait
  for their probes. So a run is a sequence of events of two kinds. At a tick,
  \<open>performHealthCheck\<close> calls \<open>checkServerHealth\<close> for every URL, and every call runs up
  to its first \<open>await\<close>: it reads \<open>previousStatus\<close> from the map as it is at the tick.
  When the probe of a check settles, the check resumes and, in one turn of the event
  loop, builds its record, writes it to the map and handles the change. The order of
  the events is the environment's: it depends on how long the probes take.
\<close>

datatype event = Tick "nat \<Rightarrow> check_env" | Settle nat nat

text \<open>
  \<open>Tick envs\<close> starts a cycle whose check number \<open>i\<close> runs in the environment \<open>envs i\<close>;
  \<open>Settle c i\<close> resumes check number \<open>i\<close> of cycle number \<open>c\<close>. A check that has been
  started is its URL, the \<open>previousStatus\<close> it read and its environment.
\<close>

type_synonym started_check = "string \<times> StatusRecord option \<times> check_env"

text \<open>
  The state of the bot: the \<open>serverStatus\<close> map, the checks started so far, cycle by
  cycle, and what each resumed check settled to, with its effects.
\<close>

record bot =
  status_map :: "string \<rightharpoonup> StatusRecord"
  begun :: "started_check list list"
  outcomes :: "nat \<times> nat \<rightharpoonup> (string + StatusRecord) \<times> effect list"

text \<open>\<open>serverUrls.map(url => checkServerHealth(url))\<close>, up to the first \<open>await\<close> of each call.\<close>

definition performHealthCheck_begin ::
  "config \<Rightarrow> (nat \<Rightarrow> check_env) \<Rightarrow> (string \<rightharpoonup> StatusRecord) \<Rightarrow> started_check list" where
  "performHealthCheck_begin cfg envs serverStatus =
     map (\<lambda>i. (serverUrls cfg ! i, serverStatus (serverUrls cfg ! i), envs i))
       [0..<length (serverUrls cfg)]"

text \<open>
  One event. A \<open>Settle\<close> for a check that was not started, or that has been resumed
  already, changes nothing.
\<close>

fun step :: "config \<Rightarrow> event \<Rightarrow> bot \<Rightarrow> bot" where
  "step cfg (Tick envs) b =
     b\<lparr> begun := begun b @ [performHealthCheck_begin cfg envs (status_map b)] \<rparr>"
| "step cfg (Settle c i) b =
     (if c < length (begun b) \<and> i < length (begun b ! c) \<and> outcomes b (c, i) = None then
        (case begun b ! c ! i of
           (url, previousStatus, env) \<Rightarrow>
             (case checkServerHealth_from cfg env url previousStatus (status_map b) of
                (r, serverStatus', es) \<Rightarrow>
                  b\<lparr> status_map := serverStatus', outcomes := (outcomes b)((c, i) \<mapsto> (r, es)) \<rparr>))
      else b)"

definition run :: "config \<Rightarrow> event list \<Rightarrow> bot \<Rightarrow> bot" where
  "run cfg sched b = fold (step cfg) sched b"

text \<open>The bot with a given map, before any cycle.\<close>

definition boot :: "(string \<rightharpoonup> StatusRecord) \<Rightarrow> bot" where
  "boot serverStatus = \<lparr> status_map = serverStatus, begun = [], outcomes = Map.empty \<rparr>"

text \<open>
  The \<open>forEach\<close> over the results of \<open>Promise.allSettled\<close>: \<open>Inr\<close> is a fulfilled
  promise, \<open>Inl\<close> a rejected one.
\<close>

fun count_results :: "(string + StatusRecord) list \<Rightarrow> int \<times> int \<Rightarrow> int \<times> int" where
  "count_results [] (upCount, downCount) = (upCount, downCount)"
| "count_results (Inr v # rs) (upCount, downCount) =
     (if isUp v then count_results rs (upCount + 1, downCount)
      else count_results rs (upCount, downCount + 1))"
| "count_results (Inl e # rs) (upCount, downCount) = count_results rs (upCount, downCount + 1)"

record cycle_report =
  upCount :: int
  downCount :: int
  results :: "(string + StatusRecord) list"
  effects :: "effect list list"

text \<open>
  The rest of \<open>performHealthCheck\<close> for cycle number \<open>c\<close>: once all its checks have
  settled, their results are counted in the order of the URLs. Until then there is no
  summary.
\<close>

definition performHealthCheck_summary :: "bot \<Rightarrow> nat \<Rightarrow> cycle_report option" where
  "performHealthCheck_summary b c =
     (if c < length (begun b)
         \<and> list_all (\<lambda>i. outcomes b (c, i) \<noteq> None) [0..<length (begun b ! c)] then
        (let outs = map (\<lambda>i. the (outcomes b (c, i))) [0..<length (begun b ! c)]
         in case count_results (map fst outs) (0, 0) of
              (up, down) \<Rightarrow>
                Some \<lparr> upCount = up, downCount = down,
                       results = map fst outs, effects = map snd outs \<rparr>)
      else None)"

section \<open>Start-up\<close>

text \<open>The record \<open>start\<close> stores for every configured URL.\<close>

definition initialStatus :: StatusRecord where
  "initialStatus =
     \<lparr> isUp = True, lastCheck = None, consecutiveFailures = 0,
       statusCode = None, responseTime = None, error = None \<rparr>"

definition initServerStatus :: "config \<Rightarrow> (string \<rightharpoonup> StatusRecord)" where
  "initServerStatus cfg = fold (\<lambda>url m. m(url \<mapsto> initialStatus)) (serverUrls cfg) Map.empty"

text \<open>
  \<open>start\<close> with a valid configuration: the map is initialised and the first cycle is
  started at once, with the environments \<open>envs\<close>; the events \<open>sched\<close> follow.
\<close>

definition start :: "config \<Rightarrow> (nat \<Rightarrow> check_env) \<Rightarrow> event list \<Rightarrow> bot" where
  "start cfg envs sched = run cfg (Tick envs # sched) (boot (initServerStatus cfg))"

section \<open>Example environments\<close>

text \<open>Concrete behaviours of the network, used to evaluate the model.\<close>

definition gets_ok :: "int \<Rightarrow> attempt_outcome" where
  "gets_ok k = HttpResponse 200 80"

definition gets_404 :: "int \<Rightarrow> attempt_outcome" where
  "gets_404 k = HttpResponse 404 35"

definition gets_timeout :: "int \<Rightarrow> attempt_outcome" where
  "gets_timeout k = TransportFailure ''timeout of 10000ms exceeded'' 10000"

definition gets_refused :: "int \<Rightarrow> attempt_outcome" where
  "gets_refused k = TransportFailure ''connect ECONNREFUSED'' 5"

definition gets_third_ok :: "int \<Rightarrow> attempt_outcome" where
  "gets_third_ok k =
     (if k = 3 then HttpResponse 200 120
      else TransportFailure ''timeout of 10000ms exceeded'' 10000)"

definition gets_slow_third_ok :: "int \<Rightarrow> attempt_outcome" where
  "gets_slow_third_ok k =
     (if k = 3 then HttpResponse 200 120
      else TransportFailure ''timeout of 30000ms exceeded'' 30000)"

definition post_ok :: "message \<Rightarrow> post_outcome" where
  "post_ok m = PostResponse 200"

definition post_refused :: "message \<Rightarrow> post_outcome" where
  "post_refused m = PostFailure ''connect ECONNREFUSED''"

definition timer_exact :: "int \<Rightarrow> int" where
  "timer_exact ms = ms"

definition example_env :: "(int \<Rightarrow> attempt_outcome) \<Rightarrow> check_env" where
  "example_env g = \<lparr> axios_get = g, axios_post = post_ok, slept = timer_exact, started = 0 \<rparr>"

text \<open>
  Cycles in which every target answers 200, every target times out, every target
  refuses the connection, or every target answers the third attempt after two
  timeouts of 30 s.
\<close>

definition all_ok :: "nat \<Rightarrow> check_env" where
  "all_ok i = example_env gets_ok"

definition all_timeout :: "nat \<Rightarrow> check_env" where
  "all_timeout i = example_env gets_timeout"

definition all_refused :: "nat \<Rightarrow> check_env" where
  "all_refused i = example_env gets_refused"

definition all_slow_third_ok :: "nat \<Rightarrow> check_env" where
  "all_slow_third_ok i = example_env gets_slow_third_ok"

text \<open>The first target answers 200, the others time out.\<close>

definition first_ok :: "nat \<Rightarrow> check_env" where
  "first_ok i = (if i = 0 then example_env gets_ok else example_env gets_timeout)"

text \<open>Two targets and two attempts per probe.\<close>

definition two_targets :: config where
  "two_targets = (default_config None)\<lparr> serverUrls := [''https://good.example'', ''https://bad.example''],
                                          retryAttempts := 2 \<rparr>"

text \<open>
  One target, with the defaults, with \<open>SEND_RECOVERY_NOTIFICATIONS=false\<close>, and with
  \<open>REQUEST_TIMEOUT=30000\<close>.
\<close>

definition one_target :: config where
  "one_target = (default_config None)\<lparr> serverUrls := [''https://api.github.com''] \<rparr>"

definition quiet_one :: config where
  "quiet_one = one_target\<lparr> sendRecoveryNotifications := False \<rparr>"

definition slow_one :: config where
  "slow_one = one_target\<lparr> requestTimeout := 30000 \<rparr>"

text \<open>
  Schedules for one target, after the first cycle that \<open>start\<close> begins. In the first
  two, every cycle settles before the next tick. In \<open>overlapping_outage\<close> the first tick
  of the cron job comes while the first check still waits (a probe that times out three
  times takes 33 s). In \<open>overlapping_recovery\<close> the second cycle takes 63 s and the third
  is started, and settles, before it ends.
\<close>

definition two_more_cycles :: "event list" where
  "two_more_cycles = [Settle 0 0, Tick all_timeout, Settle 1 0, Tick all_timeout, Settle 2 0]"

definition one_more_cycle :: "event list" where
  "one_more_cycle = [Settle 0 0, Tick all_ok, Settle 1 0]"



section \<open>Reading the outcome of a check and of a run\<close>

text \<open>
  The record a check writes for a target whose stored record is \<open>p\<close>, and the effects
  of that check. Neither depends on the other entries of the map, so they are read off
  a check that starts from the empty map.
\<close>

abbreviation new_record :: "config \<Rightarrow> check_env \<Rightarrow> string \<Rightarrow> StatusRecord \<Rightarrow> StatusRecord" where
  "new_record cfg env url p \<equiv> projr (fst (checkServerHealth_from cfg env url (Some p) Map.empty))"

abbreviation check_effects :: "config \<Rightarrow> check_env \<Rightarrow> string \<Rightarrow> StatusRecord \<Rightarrow> effect list" where
  "check_effects cfg env url p \<equiv> snd (snd (checkServerHealth_from cfg env url (Some p) Map.empty))"

text \<open>The messages posted to the webhook among a list of effects.\<close>

abbreviation posts :: "effect list \<Rightarrow> message list" where
  "posts es \<equiv> map posted (filter is_Post es)"

text \<open>
  Check number \<open>i\<close> of cycle number \<open>c\<close> in a state of the bot: its URL, the
  \<open>previousStatus\<close> it read, its environment, whether it has settled, what it settled to,
  the record it wrote, and its effects.
\<close>

abbreviation url_of :: "bot \<Rightarrow> nat \<Rightarrow> nat \<Rightarrow> string" where
  "url_of b c i \<equiv> fst (begun b ! c ! i)"

abbreviation read_by :: "bot \<Rightarrow> nat \<Rightarrow> nat \<Rightarrow> StatusRecord option" where
  "read_by b c i \<equiv> fst (snd (begun b ! c ! i))"

abbreviation env_of :: "bot \<Rightarrow> nat \<Rightarrow> nat \<Rightarrow> check_env" where
  "env_of b c i \<equiv> snd (snd (begun b ! c ! i))"

abbreviation settled :: "bot \<Rightarrow> nat \<Rightarrow> nat \<Rightarrow> bool" where
  "settled b c i \<equiv> outcomes b (c, i) \<noteq> None"

abbreviation result_of :: "bot \<Rightarrow> nat \<Rightarrow> nat \<Rightarrow> string + StatusRecord" where
  "result_of b c i \<equiv> fst (the (outcomes b (c, i)))"

abbreviation written_by :: "bot \<Rightarrow> nat \<Rightarrow> nat \<Rightarrow> StatusRecord" where
  "written_by b c i \<equiv> projr (fst (the (outcomes b (c, i))))"

abbreviation effects_of :: "bot \<Rightarrow> nat \<Rightarrow> nat \<Rightarrow> effect list" where
  "effects_of b c i \<equiv> snd (the (outcomes b (c, i)))"

text \<open>
  What holds in every state a run reaches, when every configured URL has a record in
  the map it starts from: every cycle has one check per URL, every check has read a
  record, and every settled check is fulfilled with the record and the effects that
  \<open>checkServerHealth\<close> gives for what it read.
\<close>

definition consistent :: "config \<Rightarrow> bot \<Rightarrow> bool" where
  "consistent cfg b \<longleftrightarrow>
     set (serverUrls cfg) \<subseteq> dom (status_map b)
     \<and> (\<forall>c < length (begun b).
          length (begun b ! c) = length (serverUrls cfg)
          \<and> (\<forall>i < length (serverUrls cfg). url_of b c i = serverUrls cfg ! i \<and> read_by b c i \<noteq> None))
     \<and> (\<forall>c i. settled b c i \<longrightarrow>
          c < length (begun b) \<and> i < length (serverUrls cfg)
          \<and> the (outcomes b (c, i)) =
              (Inr (new_record cfg (env_of b c i) (url_of b c i) (the (read_by b c i))),
               check_effects cfg (env_of b c i) (url_of b c i) (the (read_by b c i))))"

text \<open>A DOWN alert has been posted for the URL \<open>u\<close>.\<close>

definition down_alerted :: "bot \<Rightarrow> string \<Rightarrow> bool" where
  "down_alerted b u \<longleftrightarrow>
     (\<exists>c i. settled b c i \<and> url_of b c i = u \<and> (\<exists>m \<in> set (posts (effects_of b c i)). is_DownAlert m))"

text \<open>
  The same events, with the webhook answering differently: \<open>h envs i\<close> replaces the
  \<open>axios_post\<close> of check number \<open>i\<close> of a cycle started with \<open>envs\<close>.
\<close>

fun with_webhook ::
  "((nat \<Rightarrow> check_env) \<Rightarrow> nat \<Rightarrow> message \<Rightarrow> post_outcome) \<Rightarrow> event \<Rightarrow> event" where
  "with_webhook h (Tick envs) = Tick (\<lambda>i. (envs i)\<lparr> axios_post := h envs i \<rparr>)"
| "with_webhook h (Settle c i) = Settle c i"

section \<open>The probe: attempts, delays and elapsed time\<close>


lemma loop_skip:
  "attempt \<le> n \<Longrightarrow> n \<le> retryAttempts cfg \<Longrightarrow>
   (\<forall>k. attempt \<le> k \<and> k < n \<longrightarrow> is_failure (axios_get env k)) \<Longrightarrow>
   makeHttpRequest_loop cfg env st attempt now =
     (case makeHttpRequest_loop cfg env st n
             (now + sum_list (map (\<lambda>k. took (axios_get env k) + slept env (retryDelay cfg * k)) [attempt..n - 1])) of
        (r, t, es) \<Rightarrow> (r, t, concat (map (\<lambda>k. [Get k, Sleep (retryDelay cfg * k)]) [attempt..n - 1]) @ es))"
proof (induction cfg env st attempt now rule: makeHttpRequest_loop.induct)
  case (1 cfg env startTime attempt now)
  show ?case
  proof (cases "attempt = n")
    case True
    then show ?thesis by (simp split: prod.splits)
  next
    case False
    with "1.prems" have lt: "attempt < n" by simp
    with "1.prems" have "is_failure (axios_get env attempt)" by simp
    then obtain m d where f: "axios_get env attempt = TransportFailure m d"
      by (cases "axios_get env attempt") auto
    from lt "1.prems" have ne: "attempt \<noteq> retryAttempts cfg" "attempt \<le> retryAttempts cfg" by auto
    have up: "[attempt..n - 1] = attempt # [attempt + 1..n - 1]"
      using lt by (simp add: upto_rec1)
    have IH: "makeHttpRequest_loop cfg env startTime (attempt + 1) (now + d + slept env (retryDelay cfg * attempt)) =
       (case makeHttpRequest_loop cfg env startTime n
             (now + d + slept env (retryDelay cfg * attempt) + sum_list (map (\<lambda>k. took (axios_get env k) + slept env (retryDelay cfg * k)) [attempt + 1..n - 1])) of
        (r, t, es) \<Rightarrow> (r, t, concat (map (\<lambda>k. [Get k, Sleep (retryDelay cfg * k)]) [attempt + 1..n - 1]) @ es))"
      using "1.IH"[OF ne(2) f ne(1)] lt "1.prems" by simp
    show ?thesis
      apply (subst makeHttpRequest_loop.simps)
      apply (simp add: f ne IH up split: prod.splits)
      apply (simp add: add.assoc)
      done
  qed
qed

lemma schedule_shift:
  "a \<le> n \<Longrightarrow>
   concat (map (\<lambda>k. [Get k, Sleep (d * k)]) [a..n - 1]) @ [Get n] =
   Get a # concat (map (\<lambda>j. [Sleep (d * (j - 1)), Get j]) [a + 1..n])"
proof (induction "nat (n - a)" arbitrary: a)
  case 0
  then have "a = n" by simp
  then show ?case by simp
next
  case (Suc x)
  then have lt: "a < n" and x: "x = nat (n - (a + 1))" and le: "a + 1 \<le> n" by auto
  have u1: "[a..n - 1] = a # [a + 1..n - 1]" using lt by (simp add: upto_rec1)
  have u2: "[a + 1..n] = (a + 1) # [a + 1 + 1..n]" using le by (simp add: upto_rec1)
  show ?case using Suc.hyps(1)[OF x le] by (simp add: u1 u2)
qed

lemma probe_first_response:
  assumes "1 \<le> n" "n \<le> retryAttempts cfg"
    and "\<forall>k. 1 \<le> k \<and> k < n \<longrightarrow> is_failure (axios_get env k)"
    and "axios_get env n = HttpResponse s d"
  shows "makeHttpRequest cfg env =
    (Inr (Some (Response s (d + sum_list (map (\<lambda>k. took (axios_get env k) + slept env (retryDelay cfg * k)) [1..n - 1])))),
     started env + sum_list (map (\<lambda>k. took (axios_get env k) + slept env (retryDelay cfg * k)) [1..n - 1]) + d,
     Get 1 # concat (map (\<lambda>j. [Sleep (retryDelay cfg * (j - 1)), Get j]) [2..n]))"
proof -
  have last: "makeHttpRequest_loop cfg env st n now = (Inr (Some (Response s (now + d - st))), now + d, [Get n])" for st now
    using assms by (subst makeHttpRequest_loop.simps) simp
  show ?thesis
    unfolding makeHttpRequest_def
    using loop_skip[OF assms(1,2,3), of "started env" "started env"] schedule_shift[OF assms(1), of "retryDelay cfg"]
    by (simp add: last)
qed

lemma probe_all_fail:
  assumes "1 \<le> retryAttempts cfg"
    and "\<forall>k. 1 \<le> k \<and> k < retryAttempts cfg \<longrightarrow> is_failure (axios_get env k)"
    and "axios_get env (retryAttempts cfg) = TransportFailure m d"
  shows "fst (makeHttpRequest cfg env) = Inl (''Request failed after '' @ show_int (retryAttempts cfg) @ '' attempts: '' @ m)
    \<and> snd (snd (makeHttpRequest cfg env)) = 
     Get 1 # concat (map (\<lambda>j. [Sleep (retryDelay cfg * (j - 1)), Get j]) [2..retryAttempts cfg])"
proof -
  have last: "makeHttpRequest_loop cfg env st (retryAttempts cfg) now =
     (Inl (''Request failed after '' @ show_int (retryAttempts cfg) @ '' attempts: '' @ m), now + d, [Get (retryAttempts cfg)])" for st now
    using assms by (subst makeHttpRequest_loop.simps) simp
  show ?thesis
    unfolding makeHttpRequest_def
    using loop_skip[OF assms(1) order_refl assms(2), of "started env" "started env"] schedule_shift[OF assms(1), of "retryDelay cfg"]
    by (simp add: last)
qed

lemma probe_no_attempts:
  "retryAttempts cfg < 1 \<Longrightarrow> makeHttpRequest cfg env = (Inr None, started env, [])"
  unfolding makeHttpRequest_def by (subst makeHttpRequest_loop.simps) simp

lemma loop_gets:
  "length (filter is_Get (snd (snd (makeHttpRequest_loop cfg env st attempt now))))
     \<le> nat (retryAttempts cfg + 1 - attempt)"
proof (induction cfg env st attempt now rule: makeHttpRequest_loop.induct)
  case (1 cfg env startTime attempt now)
  show ?case
    apply (subst makeHttpRequest_loop.simps)
    using 1 apply (auto split: attempt_outcome.splits prod.splits)
    done
qed


text \<open>
  Claim C4. The probe makes its attempts one after another, at most \<open>retryAttempts\<close>
  of them. Nothing precedes attempt 1; attempt \<open>j \<ge> 2\<close> is preceded by a sleep of
  \<open>retryDelay * (j - 1)\<close>. If attempt \<open>n\<close> is the first to get an HTTP response, the probe
  returns that response's status and its last effect is attempt \<open>n\<close>; if all
  \<open>retryAttempts\<close> attempts fail it throws after the last one.
\<close>

theorem probe_attempts_and_delays:
  "(1 \<le> n \<and> n \<le> retryAttempts cfg \<and> (\<forall>k. 1 \<le> k \<and> k < n \<longrightarrow> is_failure (axios_get env k))
      \<and> is_response (axios_get env n)
     \<longrightarrow> (\<exists>rt. fst (makeHttpRequest cfg env) = Inr (Some (Response (http_status (axios_get env n)) rt)))
         \<and> snd (snd (makeHttpRequest cfg env)) =
             Get 1 # concat (map (\<lambda>j. [Sleep (retryDelay cfg * (j - 1)), Get j]) [2..n]))
   \<and> (1 \<le> retryAttempts cfg \<and> (\<forall>k. 1 \<le> k \<and> k \<le> retryAttempts cfg \<longrightarrow> is_failure (axios_get env k))
     \<longrightarrow> (\<exists>e. fst (makeHttpRequest cfg env) = Inl e)
         \<and> snd (snd (makeHttpRequest cfg env)) =
             Get 1 # concat (map (\<lambda>j. [Sleep (retryDelay cfg * (j - 1)), Get j]) [2..retryAttempts cfg]))
   \<and> length (filter is_Get (snd (snd (makeHttpRequest cfg env)))) \<le> nat (retryAttempts cfg)"
proof (intro conjI impI)
  assume h: "1 \<le> n \<and> n \<le> retryAttempts cfg \<and> (\<forall>k. 1 \<le> k \<and> k < n \<longrightarrow> is_failure (axios_get env k))
      \<and> is_response (axios_get env n)"
  then obtain s d where r: "axios_get env n = HttpResponse s d"
    by (cases "axios_get env n") auto
  from h have a: "1 \<le> n" "n \<le> retryAttempts cfg" "\<forall>k. 1 \<le> k \<and> k < n \<longrightarrow> is_failure (axios_get env k)"
    by auto
  note p = probe_first_response[OF a r]
  show "\<exists>rt. fst (makeHttpRequest cfg env) = Inr (Some (Response (http_status (axios_get env n)) rt))"
    by (simp add: p r)
  show "snd (snd (makeHttpRequest cfg env)) =
             Get 1 # concat (map (\<lambda>j. [Sleep (retryDelay cfg * (j - 1)), Get j]) [2..n])"
    by (simp add: p)
next
  assume h: "1 \<le> retryAttempts cfg \<and> (\<forall>k. 1 \<le> k \<and> k \<le> retryAttempts cfg \<longrightarrow> is_failure (axios_get env k))"
  then have "is_failure (axios_get env (retryAttempts cfg))" by simp
  then obtain m d where f: "axios_get env (retryAttempts cfg) = TransportFailure m d"
    by (cases "axios_get env (retryAttempts cfg)") auto
  from h have a: "1 \<le> retryAttempts cfg" "\<forall>k. 1 \<le> k \<and> k < retryAttempts cfg \<longrightarrow> is_failure (axios_get env k)"
    by auto
  note p = probe_all_fail[OF a f]
  show "\<exists>e. fst (makeHttpRequest cfg env) = Inl e" using p by simp
  show "snd (snd (makeHttpRequest cfg env)) =
             Get 1 # concat (map (\<lambda>j. [Sleep (retryDelay cfg * (j - 1)), Get j]) [2..retryAttempts cfg])"
    using p by simp
next
  show "length (filter is_Get (snd (snd (makeHttpRequest cfg env)))) \<le> nat (retryAttempts cfg)"
    unfolding makeHttpRequest_def using loop_gets[of cfg env "started env" 1 "started env"] by simp
qed

theorem probe_attempts_and_delays_witness:
  "retryAttempts (default_config None) = 3
   \<and> is_failure (axios_get (example_env gets_third_ok) 1)
   \<and> is_failure (axios_get (example_env gets_third_ok) 2)
   \<and> is_response (axios_get (example_env gets_third_ok) 3)
   \<and> fst (makeHttpRequest (default_config None) (example_env gets_third_ok)) = Inr (Some (Response 200 23120))
   \<and> snd (snd (makeHttpRequest (default_config None) (example_env gets_third_ok))) =
       [Get 1, Sleep 1000, Get 2, Sleep 2000, Get 3]
   \<and> is_failure (axios_get (example_env gets_timeout) 3)
   \<and> isl (fst (makeHttpRequest (default_config None) (example_env gets_timeout)))
   \<and> snd (snd (makeHttpRequest (default_config None) (example_env gets_timeout))) =
       [Get 1, Sleep 1000, Get 2, Sleep 2000, Get 3]"
proof -
  have h1: "1 \<le> (3::int) \<and> 3 \<le> retryAttempts (default_config None)
      \<and> (\<forall>k. 1 \<le> k \<and> k < 3 \<longrightarrow> is_failure (axios_get (example_env gets_third_ok) k))
      \<and> is_response (axios_get (example_env gets_third_ok) 3)"
    by (simp add: default_config_def example_env_def gets_third_ok_def)
  have h2: "1 \<le> retryAttempts (default_config None)
      \<and> (\<forall>k. 1 \<le> k \<and> k \<le> retryAttempts (default_config None) \<longrightarrow> is_failure (axios_get (example_env gets_timeout) k))"
    by (simp add: default_config_def example_env_def gets_timeout_def)
  have e: "fst (makeHttpRequest (default_config None) (example_env gets_third_ok)) = Inr (Some (Response 200 23120))"
    by (simp add: makeHttpRequest_def makeHttpRequest_loop.simps default_config_def example_env_def
        gets_third_ok_def timer_exact_def)
  from probe_attempts_and_delays[of 3 "default_config None" "example_env gets_third_ok"] h1
  have c1: "snd (snd (makeHttpRequest (default_config None) (example_env gets_third_ok))) =
       Get 1 # concat (map (\<lambda>j. [Sleep (retryDelay (default_config None) * (j - 1)), Get j]) [2..3])"
    by blast
  from probe_attempts_and_delays[of 3 "default_config None" "example_env gets_timeout"] h2
  have c2: "(\<exists>e. fst (makeHttpRequest (default_config None) (example_env gets_timeout)) = Inl e)
     \<and> snd (snd (makeHttpRequest (default_config None) (example_env gets_timeout))) =
       Get 1 # concat (map (\<lambda>j. [Sleep (retryDelay (default_config None) * (j - 1)), Get j]) [2..retryAttempts (default_config None)])"
    by blast
  have d: "retryDelay (default_config None) = 1000" "retryAttempts (default_config None) = 3"
    by (simp_all add: default_config_def)
  from c2 have c2a: "isl (fst (makeHttpRequest (default_config None) (example_env gets_timeout)))" by auto
  show ?thesis
    using h1 e c1 c2 c2a by (simp add: d example_env_def gets_timeout_def gets_third_ok_def)
qed

section \<open>One check: the record written and the messages posted\<close>

lemma loop_no_post:
  "filter is_Post (snd (snd (makeHttpRequest_loop cfg env st attempt now))) = []"
proof (induction cfg env st attempt now rule: makeHttpRequest_loop.induct)
  case (1 cfg env startTime attempt now)
  show ?case
    apply (subst makeHttpRequest_loop.simps)
    using 1 apply (auto split: attempt_outcome.splits prod.splits)
    done
qed

lemma probe_no_post: "filter is_Post (snd (snd (makeHttpRequest cfg env))) = []"
  by (simp add: makeHttpRequest_def loop_no_post)

lemma down_alert_settles:
  "\<exists>ds. sendDownAlert env url cur = (Inr (), ds) \<and> map posted (filter is_Post ds) =
      [DownAlert url
           (case error cur of None \<Rightarrow> ''No response'' | Some e \<Rightarrow> if e = [] then ''No response'' else e)
           (consecutiveFailures cur) (lastCheck cur)]"
  by (simp add: sendDownAlert_def sendWebhookMessage_def split: post_outcome.splits)

lemma recovery_alert_settles:
  "\<exists>rs. sendRecoveryAlert env url cur = (Inr (), rs) \<and> map posted (filter is_Post rs) =
      [RecoveryAlert url (statusCode cur) (responseTime cur) (lastCheck cur)]"
  by (simp add: sendRecoveryAlert_def sendWebhookMessage_def split: post_outcome.splits)

lemma handle_settles: "fst (handleStatusChange cfg env url (Some p) cur) = Inr ()"
proof -
  obtain ds where d: "sendDownAlert env url cur = (Inr (), ds)"
    using down_alert_settles[of env url cur] by auto
  obtain rs where r: "sendRecoveryAlert env url cur = (Inr (), rs)"
    using recovery_alert_settles[of env url cur] by auto
  show ?thesis by (simp add: handleStatusChange_def d r)
qed

lemma handle_posts:
  "map posted (filter is_Post (snd (handleStatusChange cfg env url (Some p) cur))) =
     (if isUp p \<and> \<not> isUp cur then
        [DownAlert url
           (case error cur of None \<Rightarrow> ''No response'' | Some e \<Rightarrow> if e = [] then ''No response'' else e)
           (consecutiveFailures cur) (lastCheck cur)]
      else if \<not> isUp p \<and> isUp cur \<and> sendRecoveryNotifications cfg then
        [RecoveryAlert url (statusCode cur) (responseTime cur) (lastCheck cur)]
      else [])"
proof -
  obtain ds where d: "sendDownAlert env url cur = (Inr (), ds)"
    and dp: "map posted (filter is_Post ds) =
      [DownAlert url
           (case error cur of None \<Rightarrow> ''No response'' | Some e \<Rightarrow> if e = [] then ''No response'' else e)
           (consecutiveFailures cur) (lastCheck cur)]"
    using down_alert_settles[of env url cur] by auto
  obtain rs where r: "sendRecoveryAlert env url cur = (Inr (), rs)"
    and rp: "map posted (filter is_Post rs) =
      [RecoveryAlert url (statusCode cur) (responseTime cur) (lastCheck cur)]"
    using recovery_alert_settles[of env url cur] by auto
  show ?thesis by (simp add: handleStatusChange_def d r dp rp)
qed

lemma build_status_ex:
  "\<exists>cur ls. (case try_block cfg url (Some p) probe t of
                Inl m \<Rightarrow> catch_block url (Some p) m t
              | Inr x \<Rightarrow> Inr x) = Inr (cur, ls)"
  by (cases probe; cases "projr probe")
     (simp_all add: try_block_def catch_block_def Let_def split: sum.splits option.splits)

lemma build_status_props:
  assumes "(case try_block cfg url (Some p) probe t of
                Inl m \<Rightarrow> catch_block url (Some p) m t
              | Inr x \<Rightarrow> Inr x) = Inr (cur, ls)"
  shows "filter is_Post ls = []
     \<and> (isUp cur \<longleftrightarrow> (\<exists>r. probe = Inr (Some r) \<and> status r \<in> set (successStatusCodes cfg)))
     \<and> consecutiveFailures cur = (if isUp cur then 0 else consecutiveFailures p + 1)
     \<and> statusCode cur = (case probe of Inr (Some r) \<Rightarrow> Some (status r) | _ \<Rightarrow> None)
     \<and> responseTime cur = (case probe of Inr (Some r) \<Rightarrow> Some (elapsed r) | _ \<Rightarrow> None)
     \<and> error cur = (case probe of Inr (Some r) \<Rightarrow> None
                     | Inr None \<Rightarrow> Some (undefined_read ''status'') | Inl m \<Rightarrow> Some m)
     \<and> lastCheck cur = Some t"
  using assms
  by (cases probe; cases "projr probe")
     (auto simp: try_block_def catch_block_def Let_def split: sum.splits option.splits if_splits)

lemma check_from_Some:
  "\<exists>cur es. checkServerHealth_from cfg env url (Some p) st = (Inr cur, st(url \<mapsto> cur), es)
     \<and> (isUp cur \<longleftrightarrow> (\<exists>r. fst (makeHttpRequest cfg env) = Inr (Some r) \<and> status r \<in> set (successStatusCodes cfg)))
     \<and> consecutiveFailures cur = (if isUp cur then 0 else consecutiveFailures p + 1)
     \<and> statusCode cur = (case fst (makeHttpRequest cfg env) of Inr (Some r) \<Rightarrow> Some (status r) | _ \<Rightarrow> None)
     \<and> responseTime cur = (case fst (makeHttpRequest cfg env) of Inr (Some r) \<Rightarrow> Some (elapsed r) | _ \<Rightarrow> None)
     \<and> error cur = (case fst (makeHttpRequest cfg env) of Inr (Some r) \<Rightarrow> None
                     | Inr None \<Rightarrow> Some (undefined_read ''status'') | Inl m \<Rightarrow> Some m)
     \<and> lastCheck cur = Some (fst (snd (makeHttpRequest cfg env)))
     \<and> map posted (filter is_Post es) =
         (if isUp p \<and> \<not> isUp cur then
            [DownAlert url
               (case error cur of None \<Rightarrow> ''No response'' | Some e \<Rightarrow> if e = [] then ''No response'' else e)
               (consecutiveFailures cur) (lastCheck cur)]
          else if \<not> isUp p \<and> isUp cur \<and> sendRecoveryNotifications cfg then
            [RecoveryAlert url (statusCode cur) (responseTime cur) (lastCheck cur)]
          else [])"
proof -
  obtain probe t es0 where m: "makeHttpRequest cfg env = (probe, t, es0)"
    by (cases "makeHttpRequest cfg env") auto
  obtain cur ls where
    b: "(case try_block cfg url (Some p) probe t of
                Inl m \<Rightarrow> catch_block url (Some p) m t
              | Inr x \<Rightarrow> Inr x) = Inr (cur, ls)"
    using build_status_ex[where cfg=cfg and url=url and p=p and probe=probe and t=t] by auto
  note bp = build_status_props[OF b]
  from bp have ls: "filter is_Post ls = []" by simp
  from bp have props: "(isUp cur \<longleftrightarrow> (\<exists>r. probe = Inr (Some r) \<and> status r \<in> set (successStatusCodes cfg)))"
      "consecutiveFailures cur = (if isUp cur then 0 else consecutiveFailures p + 1)"
      "statusCode cur = (case probe of Inr (Some r) \<Rightarrow> Some (status r) | _ \<Rightarrow> None)"
      "responseTime cur = (case probe of Inr (Some r) \<Rightarrow> Some (elapsed r) | _ \<Rightarrow> None)"
      "error cur = (case probe of Inr (Some r) \<Rightarrow> None
                     | Inr None \<Rightarrow> Some (undefined_read ''status'') | Inl m \<Rightarrow> Some m)"
      "lastCheck cur = Some t"
    by blast+
  obtain hs where h: "handleStatusChange cfg env url (Some p) cur = (Inr (), hs)"
    using handle_settles[of cfg env url p cur] by (cases "handleStatusChange cfg env url (Some p) cur") auto
  have c: "checkServerHealth_from cfg env url (Some p) st = (Inr cur, st(url \<mapsto> cur), es0 @ ls @ hs)"
    by (simp add: checkServerHealth_from_def m b h)
  have np: "filter is_Post es0 = []" using probe_no_post[of cfg env] by (simp add: m)
  have posts: "map posted (filter is_Post (es0 @ ls @ hs)) = map posted (filter is_Post hs)"
    by (simp add: np ls)
  show ?thesis
    apply (rule exI[of _ cur], rule exI[of _ "es0 @ ls @ hs"])
    apply (simp only: c posts)
    using props handle_posts[of cfg env url p cur] by (simp add: m h)
qed

section \<open>The classification of a check\<close>

lemma default_has_github:
  "initServerStatus (default_config None) =
     (initServerStatus (default_config None))(''https://api.github.com'' \<mapsto> initialStatus)"
  by (simp add: initServerStatus_def default_config_def)

lemma probe_404_example:
  "makeHttpRequest (default_config None) (example_env gets_404) = (Inr (Some (Response 404 35)), 35, [Get 1])"
  by (simp add: makeHttpRequest_def makeHttpRequest_loop.simps default_config_def example_env_def gets_404_def)

lemma probe_ok_example:
  "makeHttpRequest (default_config None) (example_env gets_ok) = (Inr (Some (Response 200 80)), 80, [Get 1])"
  by (simp add: makeHttpRequest_def makeHttpRequest_loop.simps default_config_def example_env_def gets_ok_def)

lemma probe_timeout_example:
  "makeHttpRequest (default_config None) (example_env gets_timeout) =
     (Inl ''Request failed after 3 attempts: timeout of 10000ms exceeded'', 33000,
      [Get 1, Sleep 1000, Get 2, Sleep 2000, Get 3])"
  by (simp add: makeHttpRequest_def makeHttpRequest_loop.simps default_config_def example_env_def
      gets_timeout_def timer_exact_def show_int_def show_nat.simps)

lemma check_404_example:
  "checkServerHealth (default_config None) (example_env gets_404) ''https://api.github.com''
        (initServerStatus (default_config None)) =
     (Inr \<lparr> isUp = False, lastCheck = Some 35, consecutiveFailures = 1, statusCode = Some 404,
            responseTime = Some 35, error = None \<rparr>,
      (initServerStatus (default_config None))(''https://api.github.com'' \<mapsto>
          \<lparr> isUp = False, lastCheck = Some 35, consecutiveFailures = 1, statusCode = Some 404,
            responseTime = Some 35, error = None \<rparr>),
      [Get 1, Log (LogDownDetected ''https://api.github.com''),
       Post (DownAlert ''https://api.github.com'' ''No response'' 1 (Some 35)),
       Log (LogSent ''DOWN alert'')])"
proof -
  have codes: "successStatusCodes (default_config None) = [200, 201, 202, 204, 301, 302, 304]"
    and verb: "enableVerboseLogging (default_config None) = False"
    by (simp_all add: default_config_def)
  show ?thesis
    apply (subst default_has_github)
    apply (simp add: checkServerHealth_def checkServerHealth_from_def probe_404_example)
    apply (simp add: try_block_def codes verb
        initialStatus_def handleStatusChange_def sendDownAlert_def sendWebhookMessage_def example_env_def post_ok_def)
    done
qed

text \<open>
  Claim C1. For a target with a stored record, the check writes a record whose
  \<open>isUp\<close> is true exactly when the probe returned an HTTP response and its status is in
  \<open>successStatusCodes\<close>. With the default codes a 404 gives \<open>isUp = False\<close>, and so
  does a probe that throws after its last attempt.
\<close>

theorem isUp_iff_response_in_allow_set:
  "\<exists>cur es. checkServerHealth cfg env url (serverStatus(url \<mapsto> p)) =
              (Inr cur, serverStatus(url \<mapsto> cur), es)
     \<and> (isUp cur \<longleftrightarrow>
          (\<exists>r. fst (makeHttpRequest cfg env) = Inr (Some r) \<and> status r \<in> set (successStatusCodes cfg)))
     \<and> (successStatusCodes cfg = [200, 201, 202, 204, 301, 302, 304]
          \<and> fst (makeHttpRequest cfg env) = Inr (Some (Response 404 rt)) \<longrightarrow> \<not> isUp cur)
     \<and> (isl (fst (makeHttpRequest cfg env)) \<longrightarrow> \<not> isUp cur)"
proof -
  from check_from_Some[of cfg env url p "serverStatus(url \<mapsto> p)"] obtain cur es where
    c: "checkServerHealth_from cfg env url (Some p) (serverStatus(url \<mapsto> p)) =
          (Inr cur, (serverStatus(url \<mapsto> p))(url \<mapsto> cur), es)"
    and u: "isUp cur \<longleftrightarrow>
          (\<exists>r. fst (makeHttpRequest cfg env) = Inr (Some r) \<and> status r \<in> set (successStatusCodes cfg))"
    by blast
  have "checkServerHealth cfg env url (serverStatus(url \<mapsto> p)) = (Inr cur, serverStatus(url \<mapsto> cur), es)"
    by (simp add: checkServerHealth_def c)
  moreover have "successStatusCodes cfg = [200, 201, 202, 204, 301, 302, 304]
          \<and> fst (makeHttpRequest cfg env) = Inr (Some (Response 404 rt)) \<longrightarrow> \<not> isUp cur"
    using u by auto
  moreover have "isl (fst (makeHttpRequest cfg env)) \<longrightarrow> \<not> isUp cur"
    using u by auto
  ultimately show ?thesis using u by blast
qed

theorem isUp_iff_response_in_allow_set_witness:
  "fst (makeHttpRequest (default_config None) (example_env gets_404)) = Inr (Some (Response 404 35))
   \<and> successStatusCodes (default_config None) = [200, 201, 202, 204, 301, 302, 304]
   \<and> fst (checkServerHealth (default_config None) (example_env gets_404) ''https://api.github.com''
        (initServerStatus (default_config None))) =
      Inr \<lparr> isUp = False, lastCheck = Some 35, consecutiveFailures = 1, statusCode = Some 404,
            responseTime = Some 35, error = None \<rparr>
   \<and> isl (fst (makeHttpRequest (default_config None) (example_env gets_timeout)))
   \<and> \<not> isUp (projr (fst (checkServerHealth (default_config None) (example_env gets_timeout)
         ''https://api.github.com'' (initServerStatus (default_config None)))))
   \<and> isUp (projr (fst (checkServerHealth (default_config None) (example_env gets_ok)
         ''https://api.github.com'' (initServerStatus (default_config None)))))"
proof -
  let ?cfg = "default_config None"
  let ?u = "''https://api.github.com''"
  note s = default_has_github
  note p404 = probe_404_example
  note pok = probe_ok_example
  have pto: "isl (fst (makeHttpRequest ?cfg (example_env gets_timeout)))"
    by (simp add: probe_timeout_example)
  have codes: "successStatusCodes ?cfg = [200, 201, 202, 204, 301, 302, 304]"
    by (simp add: default_config_def)
  have r404: "fst (checkServerHealth ?cfg (example_env gets_404) ?u (initServerStatus ?cfg)) =
      Inr \<lparr> isUp = False, lastCheck = Some 35, consecutiveFailures = 1, statusCode = Some 404,
            responseTime = Some 35, error = None \<rparr>"
    by (simp add: check_404_example)
  note t1 = isUp_iff_response_in_allow_set[where cfg = ?cfg and env = "example_env gets_timeout"
      and url = ?u and serverStatus = "initServerStatus ?cfg" and p = initialStatus and rt = 0,
      unfolded s[symmetric]]
  from t1 pto
  have dn: "\<not> isUp (projr (fst (checkServerHealth ?cfg (example_env gets_timeout) ?u (initServerStatus ?cfg))))"
    by auto
  note t2 = isUp_iff_response_in_allow_set[where cfg = ?cfg and env = "example_env gets_ok"
      and url = ?u and serverStatus = "initServerStatus ?cfg" and p = initialStatus and rt = 0,
      unfolded s[symmetric]]
  from t2 pok codes
  have up: "isUp (projr (fst (checkServerHealth ?cfg (example_env gets_ok) ?u (initServerStatus ?cfg))))"
    by auto
  show ?thesis using p404 codes r404 pto dn up by simp
qed

section \<open>The fields of the record written\<close>

lemma check_ok_example:
  "fst (checkServerHealth (default_config None) (example_env gets_ok) ''https://api.github.com''
        (initServerStatus (default_config None))) =
     Inr \<lparr> isUp = True, lastCheck = Some 80, consecutiveFailures = 0, statusCode = Some 200,
            responseTime = Some 80, error = None \<rparr>"
proof -
  have codes: "successStatusCodes (default_config None) = [200, 201, 202, 204, 301, 302, 304]"
    and verb: "enableVerboseLogging (default_config None) = False"
    by (simp_all add: default_config_def)
  show ?thesis
    apply (subst default_has_github)
    apply (simp add: checkServerHealth_def checkServerHealth_from_def probe_ok_example)
    apply (simp add: try_block_def codes verb initialStatus_def handleStatusChange_def)
    done
qed

text \<open>
  Claim C9, as stated, fails: a 404 from a reachable server gives a record with
  \<open>isUp = False\<close> that carries a status code and a response time and no error.
\<close>

theorem down_record_without_error_counterexample:
  "fst (checkServerHealth (default_config None) (example_env gets_404) ''https://api.github.com''
        (initServerStatus (default_config None))) =
     Inr \<lparr> isUp = False, lastCheck = Some 35, consecutiveFailures = 1, statusCode = Some 404,
            responseTime = Some 35, error = None \<rparr>"
  by (simp add: check_404_example)

text \<open>
  Claim C9, amended. \<open>statusCode\<close> and \<open>responseTime\<close> are present exactly when the
  probe returned an HTTP response, whatever its status, and \<open>error\<close> is present exactly
  when it did not. So a record with \<open>isUp = True\<close> carries \<open>statusCode\<close> and
  \<open>responseTime\<close> and no error; a record with \<open>isUp = False\<close> carries either an error and
  neither of the two, or both of them and no error.
\<close>

theorem record_fields_follow_probe:
  "\<exists>cur es. checkServerHealth cfg env url (serverStatus(url \<mapsto> p)) =
              (Inr cur, serverStatus(url \<mapsto> cur), es)
     \<and> statusCode cur = (case fst (makeHttpRequest cfg env) of Inr (Some r) \<Rightarrow> Some (status r) | _ \<Rightarrow> None)
     \<and> responseTime cur = (case fst (makeHttpRequest cfg env) of Inr (Some r) \<Rightarrow> Some (elapsed r) | _ \<Rightarrow> None)
     \<and> (error cur = None \<longleftrightarrow> (\<exists>r. fst (makeHttpRequest cfg env) = Inr (Some r)))
     \<and> (isUp cur \<longrightarrow> statusCode cur \<noteq> None \<and> responseTime cur \<noteq> None \<and> error cur = None)
     \<and> (\<not> isUp cur \<longrightarrow>
           (error cur \<noteq> None \<and> statusCode cur = None \<and> responseTime cur = None)
         \<or> (error cur = None \<and> statusCode cur \<noteq> None \<and> responseTime cur \<noteq> None))"
proof -
  from check_from_Some[of cfg env url p "serverStatus(url \<mapsto> p)"] obtain cur es where
    c: "checkServerHealth_from cfg env url (Some p) (serverStatus(url \<mapsto> p)) =
          (Inr cur, (serverStatus(url \<mapsto> p))(url \<mapsto> cur), es)"
    and u: "isUp cur \<longleftrightarrow>
          (\<exists>r. fst (makeHttpRequest cfg env) = Inr (Some r) \<and> status r \<in> set (successStatusCodes cfg))"
    and sc: "statusCode cur = (case fst (makeHttpRequest cfg env) of Inr (Some r) \<Rightarrow> Some (status r) | _ \<Rightarrow> None)"
    and rt: "responseTime cur = (case fst (makeHttpRequest cfg env) of Inr (Some r) \<Rightarrow> Some (elapsed r) | _ \<Rightarrow> None)"
    and er: "error cur = (case fst (makeHttpRequest cfg env) of Inr (Some r) \<Rightarrow> None
                     | Inr None \<Rightarrow> Some (undefined_read ''status'') | Inl m \<Rightarrow> Some m)"
    by blast
  have w: "checkServerHealth cfg env url (serverStatus(url \<mapsto> p)) = (Inr cur, serverStatus(url \<mapsto> cur), es)"
    by (simp add: checkServerHealth_def c)
  have e: "error cur = None \<longleftrightarrow> (\<exists>r. fst (makeHttpRequest cfg env) = Inr (Some r))"
    using er by (auto split: sum.splits option.splits)
  have a: "isUp cur \<longrightarrow> statusCode cur \<noteq> None \<and> responseTime cur \<noteq> None \<and> error cur = None"
    using u sc rt er by auto
  have b: "\<not> isUp cur \<longrightarrow>
           (error cur \<noteq> None \<and> statusCode cur = None \<and> responseTime cur = None)
         \<or> (error cur = None \<and> statusCode cur \<noteq> None \<and> responseTime cur \<noteq> None)"
    using sc rt er by (auto split: sum.splits option.splits)
  show ?thesis
    by (intro exI[of _ cur] exI[of _ es] conjI) (fact w sc rt e a b)+
qed

theorem record_fields_follow_probe_witness:
  "\<not> isUp (projr (fst (checkServerHealth (default_config None) (example_env gets_timeout)
         ''https://api.github.com'' (initServerStatus (default_config None)))))
   \<and> error (projr (fst (checkServerHealth (default_config None) (example_env gets_timeout)
         ''https://api.github.com'' (initServerStatus (default_config None))))) \<noteq> None
   \<and> statusCode (projr (fst (checkServerHealth (default_config None) (example_env gets_timeout)
         ''https://api.github.com'' (initServerStatus (default_config None))))) = None
   \<and> isUp (projr (fst (checkServerHealth (default_config None) (example_env gets_ok)
         ''https://api.github.com'' (initServerStatus (default_config None)))))
   \<and> statusCode (projr (fst (checkServerHealth (default_config None) (example_env gets_ok)
         ''https://api.github.com'' (initServerStatus (default_config None))))) = Some 200
   \<and> responseTime (projr (fst (checkServerHealth (default_config None) (example_env gets_ok)
         ''https://api.github.com'' (initServerStatus (default_config None))))) = Some 80
   \<and> error (projr (fst (checkServerHealth (default_config None) (example_env gets_ok)
         ''https://api.github.com'' (initServerStatus (default_config None))))) = None"
proof -
  let ?cfg = "default_config None"
  let ?u = "''https://api.github.com''"
  note t1 = record_fields_follow_probe[where cfg = ?cfg and env = "example_env gets_timeout"
      and url = ?u and serverStatus = "initServerStatus ?cfg" and p = initialStatus,
      unfolded default_has_github[symmetric]]
  note t2 = record_fields_follow_probe[where cfg = ?cfg and env = "example_env gets_ok"
      and url = ?u and serverStatus = "initServerStatus ?cfg" and p = initialStatus,
      unfolded default_has_github[symmetric]]
  from t1 obtain c1 e1 where
    c1: "checkServerHealth ?cfg (example_env gets_timeout) ?u (initServerStatus ?cfg) =
            (Inr c1, (initServerStatus ?cfg)(?u \<mapsto> c1), e1)"
    and s1: "statusCode c1 = None" and er1: "error c1 \<noteq> None" and u1: "isUp c1 \<longrightarrow> statusCode c1 \<noteq> None"
    by (auto simp: probe_timeout_example)
  from t2 obtain c2 e2 where
    c2: "checkServerHealth ?cfg (example_env gets_ok) ?u (initServerStatus ?cfg) =
            (Inr c2, (initServerStatus ?cfg)(?u \<mapsto> c2), e2)"
    and s2: "statusCode c2 = Some 200" "responseTime c2 = Some 80" and er2: "error c2 = None"
    and u2: "\<not> isUp c2 \<longrightarrow> (error c2 \<noteq> None \<and> statusCode c2 = None \<and> responseTime c2 = None)
         \<or> (error c2 = None \<and> statusCode c2 \<noteq> None \<and> responseTime c2 \<noteq> None)"
    by (auto simp: probe_ok_example)
  have up2: "isUp c2"
    using check_ok_example c2 by simp
  show ?thesis using s1 er1 u1 s2 er2 up2 by (simp add: c1 c2)
qed

section \<open>The response time of a probe that was retried\<close>

lemma sum_list_bounded:
  fixes f :: "int \<Rightarrow> int"
  shows "(\<forall>x \<in> set xs. f x \<le> T) \<Longrightarrow> sum_list (map f xs) \<le> int (length xs) * T"
  by (induction xs) (auto simp: algebra_simps)

lemma sum_list_const:
  fixes f :: "int \<Rightarrow> int"
  shows "(\<forall>x \<in> set xs. f x = T) \<Longrightarrow> sum_list (map f xs) = int (length xs) * T"
  by (induction xs) (auto simp: algebra_simps)

text \<open>
  Claim C10. When attempt \<open>n\<close> is the first to get an HTTP response, the
  \<open>responseTime\<close> of the probe, which the check stores, is the duration of attempt \<open>n\<close>
  plus the durations of the \<open>n - 1\<close> failed attempts plus the time slept between the
  attempts: it is measured from the start of attempt 1. If every failed attempt took at
  most \<open>requestTimeout\<close>, it exceeds the duration of attempt \<open>n\<close> by at most
  \<open>(n - 1) * requestTimeout\<close> plus the time slept, and by exactly that much if every
  failed attempt took \<open>requestTimeout\<close>.
\<close>

theorem responseTime_since_first_attempt:
  "1 \<le> n \<and> n \<le> retryAttempts cfg \<and> (\<forall>k. 1 \<le> k \<and> k < n \<longrightarrow> is_failure (axios_get env k))
      \<and> is_response (axios_get env n) \<longrightarrow>
   (\<exists>cur es rt.
       checkServerHealth cfg env url (serverStatus(url \<mapsto> p)) = (Inr cur, serverStatus(url \<mapsto> cur), es)
     \<and> fst (makeHttpRequest cfg env) = Inr (Some (Response (http_status (axios_get env n)) rt))
     \<and> responseTime cur = Some rt
     \<and> rt = took (axios_get env n)
            + sum_list (map (\<lambda>k. took (axios_get env k)) [1..n - 1])
            + sum_list (map (\<lambda>k. slept env (retryDelay cfg * k)) [1..n - 1])
     \<and> ((\<forall>k. 1 \<le> k \<and> k < n \<longrightarrow> took (axios_get env k) \<le> requestTimeout cfg) \<longrightarrow>
          rt - took (axios_get env n) \<le>
            (n - 1) * requestTimeout cfg + sum_list (map (\<lambda>k. slept env (retryDelay cfg * k)) [1..n - 1]))
     \<and> ((\<forall>k. 1 \<le> k \<and> k < n \<longrightarrow> took (axios_get env k) = requestTimeout cfg) \<longrightarrow>
          rt - took (axios_get env n) =
            (n - 1) * requestTimeout cfg + sum_list (map (\<lambda>k. slept env (retryDelay cfg * k)) [1..n - 1])))"
proof
  assume h: "1 \<le> n \<and> n \<le> retryAttempts cfg \<and> (\<forall>k. 1 \<le> k \<and> k < n \<longrightarrow> is_failure (axios_get env k))
      \<and> is_response (axios_get env n)"
  then obtain s d where r: "axios_get env n = HttpResponse s d"
    by (cases "axios_get env n") auto
  from h have a: "1 \<le> n" "n \<le> retryAttempts cfg" "\<forall>k. 1 \<le> k \<and> k < n \<longrightarrow> is_failure (axios_get env k)"
    by auto
  let ?fails = "sum_list (map (\<lambda>k. took (axios_get env k)) [1..n - 1])"
  let ?sleeps = "sum_list (map (\<lambda>k. slept env (retryDelay cfg * k)) [1..n - 1])"
  let ?rt = "d + ?fails + ?sleeps"
  have split: "sum_list (map (\<lambda>k. took (axios_get env k) + slept env (retryDelay cfg * k)) [1..n - 1])
      = ?fails + ?sleeps"
    by (simp add: sum_list_addf)
  have p: "fst (makeHttpRequest cfg env) = Inr (Some (Response s ?rt))"
    using probe_first_response[OF a r] split by simp
  from check_from_Some[of cfg env url p "serverStatus(url \<mapsto> p)"] obtain cur es where
    c: "checkServerHealth_from cfg env url (Some p) (serverStatus(url \<mapsto> p)) =
          (Inr cur, (serverStatus(url \<mapsto> p))(url \<mapsto> cur), es)"
    and rt: "responseTime cur = (case fst (makeHttpRequest cfg env) of Inr (Some r) \<Rightarrow> Some (elapsed r) | _ \<Rightarrow> None)"
    by blast
  have w: "checkServerHealth cfg env url (serverStatus(url \<mapsto> p)) = (Inr cur, serverStatus(url \<mapsto> cur), es)"
    by (simp add: checkServerHealth_def c)
  have len: "int (length [1..n - 1]) = n - 1" using a(1) by simp
  have b1: "(\<forall>k. 1 \<le> k \<and> k < n \<longrightarrow> took (axios_get env k) \<le> requestTimeout cfg) \<longrightarrow>
          ?rt - took (axios_get env n) \<le> (n - 1) * requestTimeout cfg + ?sleeps"
  proof
    assume "\<forall>k. 1 \<le> k \<and> k < n \<longrightarrow> took (axios_get env k) \<le> requestTimeout cfg"
    then have "\<forall>k \<in> set [1..n - 1]. took (axios_get env k) \<le> requestTimeout cfg" by simp
    from sum_list_bounded[OF this] len have "?fails \<le> (n - 1) * requestTimeout cfg" by simp
    then show "?rt - took (axios_get env n) \<le> (n - 1) * requestTimeout cfg + ?sleeps"
      by (simp add: r)
  qed
  have b2: "(\<forall>k. 1 \<le> k \<and> k < n \<longrightarrow> took (axios_get env k) = requestTimeout cfg) \<longrightarrow>
          ?rt - took (axios_get env n) = (n - 1) * requestTimeout cfg + ?sleeps"
  proof
    assume "\<forall>k. 1 \<le> k \<and> k < n \<longrightarrow> took (axios_get env k) = requestTimeout cfg"
    then have "\<forall>k \<in> set [1..n - 1]. took (axios_get env k) = requestTimeout cfg" by simp
    from sum_list_const[OF this] len have "?fails = (n - 1) * requestTimeout cfg" by simp
    then show "?rt - took (axios_get env n) = (n - 1) * requestTimeout cfg + ?sleeps"
      by (simp add: r)
  qed
  have p': "fst (makeHttpRequest cfg env) = Inr (Some (Response (http_status (axios_get env n)) ?rt))"
    using p r by simp
  have rt': "responseTime cur = Some ?rt" using rt p by simp
  have eq: "?rt = took (axios_get env n) + ?fails + ?sleeps" by (simp add: r)
  show "\<exists>cur es rt.
       checkServerHealth cfg env url (serverStatus(url \<mapsto> p)) = (Inr cur, serverStatus(url \<mapsto> cur), es)
     \<and> fst (makeHttpRequest cfg env) = Inr (Some (Response (http_status (axios_get env n)) rt))
     \<and> responseTime cur = Some rt
     \<and> rt = took (axios_get env n)
            + sum_list (map (\<lambda>k. took (axios_get env k)) [1..n - 1])
            + sum_list (map (\<lambda>k. slept env (retryDelay cfg * k)) [1..n - 1])
     \<and> ((\<forall>k. 1 \<le> k \<and> k < n \<longrightarrow> took (axios_get env k) \<le> requestTimeout cfg) \<longrightarrow>
          rt - took (axios_get env n) \<le>
            (n - 1) * requestTimeout cfg + sum_list (map (\<lambda>k. slept env (retryDelay cfg * k)) [1..n - 1]))
     \<and> ((\<forall>k. 1 \<le> k \<and> k < n \<longrightarrow> took (axios_get env k) = requestTimeout cfg) \<longrightarrow>
          rt - took (axios_get env n) =
            (n - 1) * requestTimeout cfg + sum_list (map (\<lambda>k. slept env (retryDelay cfg * k)) [1..n - 1]))"
    by (intro exI[of _ cur] exI[of _ es] exI[of _ ?rt] conjI) (fact w p' rt' eq b1 b2)+
qed

theorem responseTime_since_first_attempt_witness:
  "retryAttempts (default_config None) = 3
   \<and> requestTimeout (default_config None) = 10000
   \<and> axios_get (example_env gets_third_ok) 1 = TransportFailure ''timeout of 10000ms exceeded'' 10000
   \<and> axios_get (example_env gets_third_ok) 2 = TransportFailure ''timeout of 10000ms exceeded'' 10000
   \<and> axios_get (example_env gets_third_ok) 3 = HttpResponse 200 120
   \<and> fst (makeHttpRequest (default_config None) (example_env gets_third_ok)) = Inr (Some (Response 200 23120))
   \<and> responseTime (projr (fst (checkServerHealth (default_config None) (example_env gets_third_ok)
         ''https://api.github.com'' (initServerStatus (default_config None))))) = Some 23120
   \<and> (23120::int) - 120 = (3 - 1) * 10000 + (1000 + 2000)"
proof -
  let ?cfg = "default_config None"
  let ?env = "example_env gets_third_ok"
  let ?u = "''https://api.github.com''"
  have g: "axios_get ?env 1 = TransportFailure ''timeout of 10000ms exceeded'' 10000"
    "axios_get ?env 2 = TransportFailure ''timeout of 10000ms exceeded'' 10000"
    "axios_get ?env 3 = HttpResponse 200 120"
    by (simp_all add: example_env_def gets_third_ok_def)
  have cf: "retryAttempts ?cfg = 3" "requestTimeout ?cfg = 10000" "retryDelay ?cfg = 1000"
    by (simp_all add: default_config_def)
  have h: "1 \<le> (3::int) \<and> 3 \<le> retryAttempts ?cfg \<and> (\<forall>k. 1 \<le> k \<and> k < 3 \<longrightarrow> is_failure (axios_get ?env k))
      \<and> is_response (axios_get ?env 3)"
    by (simp add: cf example_env_def gets_third_ok_def)
  have sl: "slept ?env = timer_exact" by (simp add: example_env_def)
  note t = responseTime_since_first_attempt[where n = 3 and cfg = ?cfg and env = ?env
      and url = ?u and serverStatus = "initServerStatus ?cfg" and p = initialStatus,
      unfolded default_has_github[symmetric]]
  from t h obtain cur es rt where
    c: "checkServerHealth ?cfg ?env ?u (initServerStatus ?cfg) = (Inr cur, (initServerStatus ?cfg)(?u \<mapsto> cur), es)"
    and p: "fst (makeHttpRequest ?cfg ?env) = Inr (Some (Response (http_status (axios_get ?env 3)) rt))"
    and r: "responseTime cur = Some rt"
    and e: "rt = took (axios_get ?env 3)
            + sum_list (map (\<lambda>k. took (axios_get ?env k)) [1..3 - 1])
            + sum_list (map (\<lambda>k. slept ?env (retryDelay ?cfg * k)) [1..3 - 1])"
    by blast
  have u: "[1..2] = [1, 2::int]" by (simp add: upto_rec1)
  have "rt = 23120" using e by (simp add: u g cf sl timer_exact_def)
  then show ?thesis using c p r g cf by simp
qed

section \<open>Runs: what holds in every state\<close>

lemma check_from_store_indep:
  "fst (checkServerHealth_from cfg env url prev st) = fst (checkServerHealth_from cfg env url prev st')
   \<and> snd (snd (checkServerHealth_from cfg env url prev st)) = snd (snd (checkServerHealth_from cfg env url prev st'))"
  by (simp add: checkServerHealth_from_def split: prod.splits sum.splits)

lemma check_from_canonical:
  "checkServerHealth_from cfg env url (Some p) st =
     (Inr (new_record cfg env url p), st(url \<mapsto> new_record cfg env url p), check_effects cfg env url p)"
proof -
  from check_from_Some[of cfg env url p st] obtain cur es where
    c: "checkServerHealth_from cfg env url (Some p) st = (Inr cur, st(url \<mapsto> cur), es)"
    by blast
  have "fst (checkServerHealth_from cfg env url (Some p) Map.empty) = Inr cur"
    using check_from_store_indep[of cfg env url "Some p" Map.empty st] c by simp
  moreover have "snd (snd (checkServerHealth_from cfg env url (Some p) Map.empty)) = es"
    using check_from_store_indep[of cfg env url "Some p" Map.empty st] c by simp
  ultimately show ?thesis using c by simp
qed

lemma new_record_props:
  "(isUp (new_record cfg env url p) \<longleftrightarrow>
      (\<exists>r. fst (makeHttpRequest cfg env) = Inr (Some r) \<and> status r \<in> set (successStatusCodes cfg)))
   \<and> consecutiveFailures (new_record cfg env url p) =
       (if isUp (new_record cfg env url p) then 0 else consecutiveFailures p + 1)
   \<and> posts (check_effects cfg env url p) =
         (if isUp p \<and> \<not> isUp (new_record cfg env url p) then
            [DownAlert url
               (case error (new_record cfg env url p) of None \<Rightarrow> ''No response''
                | Some e \<Rightarrow> if e = [] then ''No response'' else e)
               (consecutiveFailures (new_record cfg env url p)) (lastCheck (new_record cfg env url p))]
          else if \<not> isUp p \<and> isUp (new_record cfg env url p) \<and> sendRecoveryNotifications cfg then
            [RecoveryAlert url (statusCode (new_record cfg env url p))
               (responseTime (new_record cfg env url p)) (lastCheck (new_record cfg env url p))]
          else [])"
proof -
  from check_from_Some[of cfg env url p Map.empty] obtain cur es where
    c: "checkServerHealth_from cfg env url (Some p) Map.empty = (Inr cur, Map.empty(url \<mapsto> cur), es)"
    and props: "(isUp cur \<longleftrightarrow> (\<exists>r. fst (makeHttpRequest cfg env) = Inr (Some r) \<and> status r \<in> set (successStatusCodes cfg)))"
     "consecutiveFailures cur = (if isUp cur then 0 else consecutiveFailures p + 1)"
     "map posted (filter is_Post es) =
         (if isUp p \<and> \<not> isUp cur then
            [DownAlert url
               (case error cur of None \<Rightarrow> ''No response'' | Some e \<Rightarrow> if e = [] then ''No response'' else e)
               (consecutiveFailures cur) (lastCheck cur)]
          else if \<not> isUp p \<and> isUp cur \<and> sendRecoveryNotifications cfg then
            [RecoveryAlert url (statusCode cur) (responseTime cur) (lastCheck cur)]
          else [])"
    by blast
  have n: "new_record cfg env url p = cur" "check_effects cfg env url p = es" using c by simp_all
  show ?thesis unfolding n using props by blast
qed

lemma count_results_eq:
  "count_results rs (a, b) =
     (a + int (length (filter (\<lambda>r. case r of Inr v \<Rightarrow> isUp v | Inl e \<Rightarrow> False) rs)),
      b + int (length (filter (\<lambda>r. \<not> (case r of Inr v \<Rightarrow> isUp v | Inl e \<Rightarrow> False)) rs)))"
  by (induction rs "(a, b)" arbitrary: a b rule: count_results.induct) auto

lemma init_lookup:
  "initServerStatus cfg u = (if u \<in> set (serverUrls cfg) then Some initialStatus else None)"
proof -
  have "fold (\<lambda>url m. m(url \<mapsto> initialStatus)) urls m u =
          (if u \<in> set urls then Some initialStatus else m u)" for urls and m :: "string \<rightharpoonup> StatusRecord"
    by (induction urls arbitrary: m) auto
  then show ?thesis by (simp add: initServerStatus_def)
qed

lemma begin_length: "length (performHealthCheck_begin cfg envs st) = length (serverUrls cfg)"
  by (simp add: performHealthCheck_begin_def)

lemma begin_nth:
  "i < length (serverUrls cfg) \<Longrightarrow>
   performHealthCheck_begin cfg envs st ! i = (serverUrls cfg ! i, st (serverUrls cfg ! i), envs i)"
  by (simp add: performHealthCheck_begin_def)

lemma run_snoc: "run cfg (sched @ [e]) b = step cfg e (run cfg sched b)"
  by (simp add: run_def)

lemma start_snoc: "start cfg envs (sched @ [e]) = step cfg e (start cfg envs sched)"
  by (simp add: start_def run_def)

lemma start_nil:
  "start cfg envs [] =
     \<lparr> status_map = initServerStatus cfg,
       begun = [performHealthCheck_begin cfg envs (initServerStatus cfg)],
       outcomes = Map.empty \<rparr>"
  by (simp add: start_def run_def boot_def)

text \<open>A valid \<open>Settle\<close> of a check that read a record.\<close>

lemma step_Settle:
  assumes "c < length (begun b)" and "i < length (begun b ! c)" and "outcomes b (c, i) = None"
    and "read_by b c i = Some p"
  shows "step cfg (Settle c i) b =
     b\<lparr> status_map := (status_map b)(url_of b c i \<mapsto> new_record cfg (env_of b c i) (url_of b c i) p),
        outcomes := (outcomes b)((c, i) \<mapsto>
           (Inr (new_record cfg (env_of b c i) (url_of b c i) p),
            check_effects cfg (env_of b c i) (url_of b c i) p)) \<rparr>"
proof -
  obtain u prev env where e: "begun b ! c ! i = (u, prev, env)"
    by (cases "begun b ! c ! i") auto
  with assms(4) have p: "prev = Some p" by simp
  show ?thesis
    using assms(1,2,3)
    by (simp add: e p check_from_canonical[of cfg env u p "status_map b"] del: fun_upd_apply)
qed

lemma step_Settle_idle:
  "\<not> (c < length (begun b) \<and> i < length (begun b ! c) \<and> outcomes b (c, i) = None) \<Longrightarrow>
   step cfg (Settle c i) b = b"
  by auto

lemma consistent_step:
  assumes "consistent cfg b"
  shows "consistent cfg (step cfg e b)"
proof (cases e)
  case (Tick envs)
  let ?B = "performHealthCheck_begin cfg envs (status_map b)"
  have s: "step cfg e b = b\<lparr> begun := begun b @ [?B] \<rparr>" by (simp add: Tick)
  from assms have A: "set (serverUrls cfg) \<subseteq> dom (status_map b)"
    and B: "\<forall>c < length (begun b).
          length (begun b ! c) = length (serverUrls cfg)
          \<and> (\<forall>i < length (serverUrls cfg). url_of b c i = serverUrls cfg ! i \<and> read_by b c i \<noteq> None)"
    and C: "\<forall>c i. settled b c i \<longrightarrow>
          c < length (begun b) \<and> i < length (serverUrls cfg)
          \<and> the (outcomes b (c, i)) =
              (Inr (new_record cfg (env_of b c i) (url_of b c i) (the (read_by b c i))),
               check_effects cfg (env_of b c i) (url_of b c i) (the (read_by b c i)))"
    unfolding consistent_def by blast+
  have new: "\<forall>i < length (serverUrls cfg). fst (?B ! i) = serverUrls cfg ! i \<and> fst (snd (?B ! i)) \<noteq> None"
  proof (intro allI impI)
    fix i assume i: "i < length (serverUrls cfg)"
    then have "serverUrls cfg ! i \<in> set (serverUrls cfg)" by simp
    with A have "serverUrls cfg ! i \<in> dom (status_map b)" by blast
    then show "fst (?B ! i) = serverUrls cfg ! i \<and> fst (snd (?B ! i)) \<noteq> None"
      using i by (auto simp: begin_nth)
  qed
  show ?thesis
    unfolding consistent_def s
    using A B C new by (auto simp: nth_append begin_length less_Suc_eq)
next
  case (Settle c i)
  show ?thesis
  proof (cases "c < length (begun b) \<and> i < length (begun b ! c) \<and> outcomes b (c, i) = None")
    case False
    show ?thesis unfolding Settle step_Settle_idle[OF False] by (rule assms)
  next
    case True
    from assms have A: "set (serverUrls cfg) \<subseteq> dom (status_map b)"
      and B: "\<forall>c < length (begun b).
          length (begun b ! c) = length (serverUrls cfg)
          \<and> (\<forall>i < length (serverUrls cfg). url_of b c i = serverUrls cfg ! i \<and> read_by b c i \<noteq> None)"
      and C: "\<forall>c i. settled b c i \<longrightarrow>
          c < length (begun b) \<and> i < length (serverUrls cfg)
          \<and> the (outcomes b (c, i)) =
              (Inr (new_record cfg (env_of b c i) (url_of b c i) (the (read_by b c i))),
               check_effects cfg (env_of b c i) (url_of b c i) (the (read_by b c i)))"
      unfolding consistent_def by blast+
    from True B have len: "length (begun b ! c) = length (serverUrls cfg)" by blast
    with True have i: "i < length (serverUrls cfg)" by simp
    from True B i have "read_by b c i \<noteq> None" by blast
    then obtain p where p: "read_by b c i = Some p" by auto
    note s = step_Settle[of c b i p cfg, OF _ _ _ p]
    have s': "step cfg e b =
       b\<lparr> status_map := (status_map b)(url_of b c i \<mapsto> new_record cfg (env_of b c i) (url_of b c i) p),
        outcomes := (outcomes b)((c, i) \<mapsto>
           (Inr (new_record cfg (env_of b c i) (url_of b c i) p),
            check_effects cfg (env_of b c i) (url_of b c i) p)) \<rparr>"
      unfolding Settle using True by (intro s) simp_all
    show ?thesis
      unfolding consistent_def s'
      using A B C True i p by (auto simp: dom_def)
  qed
qed

lemma consistent_run: "consistent cfg b \<Longrightarrow> consistent cfg (run cfg sched b)"
  unfolding run_def by (induction sched arbitrary: b) (simp_all add: consistent_step)

lemma consistent_boot: "set (serverUrls cfg) \<subseteq> dom st \<Longrightarrow> consistent cfg (boot st)"
  by (simp add: consistent_def boot_def)

lemma consistent_start: "consistent cfg (start cfg envs sched)"
  unfolding start_def
  by (rule consistent_run, rule consistent_boot) (auto simp: init_lookup dom_def)

lemma step_cases [consumes 1, case_names tick idle settle]:
  assumes "consistent cfg b"
  obtains (tick) envs where "e = Tick envs"
      and "step cfg e b = b\<lparr> begun := begun b @ [performHealthCheck_begin cfg envs (status_map b)] \<rparr>"
    | (idle) "step cfg e b = b"
    | (settle) c i p where "e = Settle c i" and "c < length (begun b)" and "i < length (serverUrls cfg)"
      and "outcomes b (c, i) = None" and "read_by b c i = Some p" and "url_of b c i = serverUrls cfg ! i"
      and "step cfg e b =
         b\<lparr> status_map := (status_map b)(url_of b c i \<mapsto> new_record cfg (env_of b c i) (url_of b c i) p),
            outcomes := (outcomes b)((c, i) \<mapsto>
              (Inr (new_record cfg (env_of b c i) (url_of b c i) p),
               check_effects cfg (env_of b c i) (url_of b c i) p)) \<rparr>"
proof (cases e)
  case (Tick envs)
  then show ?thesis using tick by simp
next
  case (Settle c i)
  show ?thesis
  proof (cases "c < length (begun b) \<and> i < length (begun b ! c) \<and> outcomes b (c, i) = None")
    case False
    then show ?thesis using idle step_Settle_idle[OF False] Settle by simp
  next
    case True
    from assms have B: "\<forall>c < length (begun b).
          length (begun b ! c) = length (serverUrls cfg)
          \<and> (\<forall>i < length (serverUrls cfg). url_of b c i = serverUrls cfg ! i \<and> read_by b c i \<noteq> None)"
      unfolding consistent_def by blast
    from True B have len: "length (begun b ! c) = length (serverUrls cfg)" by blast
    with True have i: "i < length (serverUrls cfg)" by simp
    from True B i have u: "url_of b c i = serverUrls cfg ! i" and "read_by b c i \<noteq> None" by blast+
    then obtain p where p: "read_by b c i = Some p" by auto
    have st: "step cfg e b =
       b\<lparr> status_map := (status_map b)(url_of b c i \<mapsto> new_record cfg (env_of b c i) (url_of b c i) p),
        outcomes := (outcomes b)((c, i) \<mapsto>
           (Inr (new_record cfg (env_of b c i) (url_of b c i) p),
            check_effects cfg (env_of b c i) (url_of b c i) p)) \<rparr>"
      unfolding Settle using True by (intro step_Settle[OF _ _ _ p]) simp_all
    from True have t: "c < length (begun b)" "outcomes b (c, i) = None" by simp_all
    show ?thesis by (rule settle[OF Settle t(1) i t(2) p u st])
  qed
qed

lemma settled_check:
  assumes "consistent cfg b" and "settled b c i"
  shows "c < length (begun b)" and "i < length (serverUrls cfg)"
    and "url_of b c i = serverUrls cfg ! i"
    and "read_by b c i = Some (the (read_by b c i))"
    and "result_of b c i = Inr (new_record cfg (env_of b c i) (url_of b c i) (the (read_by b c i)))"
    and "effects_of b c i = check_effects cfg (env_of b c i) (url_of b c i) (the (read_by b c i))"
proof -
  from assms have C: "c < length (begun b) \<and> i < length (serverUrls cfg)
          \<and> the (outcomes b (c, i)) =
              (Inr (new_record cfg (env_of b c i) (url_of b c i) (the (read_by b c i))),
               check_effects cfg (env_of b c i) (url_of b c i) (the (read_by b c i)))"
    unfolding consistent_def by blast
  from assms(1) have B: "\<forall>c < length (begun b).
          length (begun b ! c) = length (serverUrls cfg)
          \<and> (\<forall>i < length (serverUrls cfg). url_of b c i = serverUrls cfg ! i \<and> read_by b c i \<noteq> None)"
    unfolding consistent_def by blast
  from C show "c < length (begun b)" "i < length (serverUrls cfg)" by simp_all
  with B show "url_of b c i = serverUrls cfg ! i" "read_by b c i = Some (the (read_by b c i))"
    by auto
  from C show "result_of b c i = Inr (new_record cfg (env_of b c i) (url_of b c i) (the (read_by b c i)))"
    "effects_of b c i = check_effects cfg (env_of b c i) (url_of b c i) (the (read_by b c i))"
    by simp_all
qed

lemma check_isUp:
  assumes "consistent cfg b" and "settled b c i"
  shows "isUp (written_by b c i) \<longleftrightarrow>
           (\<exists>r. fst (makeHttpRequest cfg (env_of b c i)) = Inr (Some r)
                \<and> status r \<in> set (successStatusCodes cfg))"
  using new_record_props[of cfg "env_of b c i" "url_of b c i" "the (read_by b c i)"]
  by (simp add: settled_check(5)[OF assms])


lemma check_posts:
  assumes "consistent cfg b" and "settled b c i"
  shows "posts (effects_of b c i) =
     (if isUp (the (read_by b c i)) \<and> \<not> isUp (written_by b c i) then
        [DownAlert (serverUrls cfg ! i)
           (case error (written_by b c i) of
              None \<Rightarrow> ''No response'' | Some e \<Rightarrow> if e = [] then ''No response'' else e)
           (consecutiveFailures (written_by b c i)) (lastCheck (written_by b c i))]
      else if \<not> isUp (the (read_by b c i)) \<and> isUp (written_by b c i) \<and> sendRecoveryNotifications cfg then
        [RecoveryAlert (serverUrls cfg ! i) (statusCode (written_by b c i))
           (responseTime (written_by b c i)) (lastCheck (written_by b c i))]
      else [])"
  using new_record_props[of cfg "env_of b c i" "url_of b c i" "the (read_by b c i)"]
  by (simp add: settled_check(5)[OF assms] settled_check(6)[OF assms] settled_check(3)[OF assms])

lemma step_begun:
  "length (begun b) \<le> length (begun (step cfg e b))"
  "c < length (begun b) \<Longrightarrow> begun (step cfg e b) ! c = begun b ! c"
  by (cases e; auto simp: nth_append split: prod.splits)+

lemma step_outcomes:
  "outcomes b (c, i) = Some out \<Longrightarrow> outcomes (step cfg e b) (c, i) = Some out"
  by (cases e) (auto split: prod.splits)

lemma run_begun:
  "length (begun b) \<le> length (begun (run cfg sched b))"
  "c < length (begun b) \<Longrightarrow> begun (run cfg sched b) ! c = begun b ! c"
proof -
  have "length (begun b) \<le> length (begun (run cfg sched b))
      \<and> (c < length (begun b) \<longrightarrow> begun (run cfg sched b) ! c = begun b ! c)"
  proof (induction sched rule: rev_induct)
    case Nil
    then show ?case by (simp add: run_def)
  next
    case (snoc e sched)
    show ?case
      unfolding run_snoc
      using snoc step_begun(1)[of "run cfg sched b" cfg e] step_begun(2)[of c "run cfg sched b" cfg e]
      by auto
  qed
  then show "length (begun b) \<le> length (begun (run cfg sched b))"
    "c < length (begun b) \<Longrightarrow> begun (run cfg sched b) ! c = begun b ! c"
    by simp_all
qed

lemma first_cycle:
  "begun (start cfg envs sched) ! 0 = performHealthCheck_begin cfg envs (initServerStatus cfg)"
  "0 < length (begun (start cfg envs sched))"
proof -
  have s: "start cfg envs sched = run cfg sched (start cfg envs [])"
    by (simp add: start_def run_def)
  have l: "0 < length (begun (start cfg envs []))" by (simp add: start_nil)
  show "begun (start cfg envs sched) ! 0 = performHealthCheck_begin cfg envs (initServerStatus cfg)"
    unfolding s run_begun(2)[OF l] by (simp add: start_nil)
  show "0 < length (begun (start cfg envs sched))"
    unfolding s using run_begun(1)[of "start cfg envs []" cfg sched] l by linarith
qed

lemma first_read:
  assumes "i < length (serverUrls cfg)"
  shows "read_by (start cfg envs sched) 0 i = Some initialStatus"
    and "env_of (start cfg envs sched) 0 i = envs i"
    and "url_of (start cfg envs sched) 0 i = serverUrls cfg ! i"
  using assms by (simp_all add: first_cycle begin_nth init_lookup)


lemma down_alerted_step:
  assumes "consistent cfg b" and "down_alerted b u"
  shows "down_alerted (step cfg e b) u"
proof -
  from assms(2) obtain c i where s: "settled b c i" and u: "url_of b c i = u"
    and m: "\<exists>m \<in> set (posts (effects_of b c i)). is_DownAlert m"
    unfolding down_alerted_def by blast
  from s obtain out where o: "outcomes b (c, i) = Some out" by auto
  have c: "c < length (begun b)" by (rule settled_check(1)[OF assms(1) s])
  have "outcomes (step cfg e b) (c, i) = Some out" by (rule step_outcomes[OF o])
  moreover have "begun (step cfg e b) ! c = begun b ! c" by (rule step_begun(2)[OF c])
  ultimately show ?thesis
    unfolding down_alerted_def using o u m by (intro exI[of _ c] exI[of _ i]) simp
qed

lemma start_alerted:
  "(\<forall>u r. status_map (start cfg envs sched) u = Some r \<and> \<not> isUp r \<longrightarrow> down_alerted (start cfg envs sched) u)
   \<and> (\<forall>c < length (begun (start cfg envs sched)). \<forall>i < length (serverUrls cfg). \<forall>p.
        read_by (start cfg envs sched) c i = Some p \<and> \<not> isUp p
          \<longrightarrow> down_alerted (start cfg envs sched) (serverUrls cfg ! i))"
proof (induction sched rule: rev_induct)
  case Nil
  show ?case
    by (auto simp: start_nil init_lookup initialStatus_def begin_nth split: if_splits)
next
  case (snoc e sched)
  let ?b = "start cfg envs sched"
  note con = consistent_start[of cfg envs sched]
  from snoc have S: "\<And>u r. status_map ?b u = Some r \<Longrightarrow> \<not> isUp r \<Longrightarrow> down_alerted ?b u"
    and R: "\<And>c i p. c < length (begun ?b) \<Longrightarrow> i < length (serverUrls cfg) \<Longrightarrow>
        read_by ?b c i = Some p \<Longrightarrow> \<not> isUp p \<Longrightarrow> down_alerted ?b (serverUrls cfg ! i)"
    by blast+
  note keep = down_alerted_step[OF con, where e = e]
  have S': "\<forall>u r. status_map (step cfg e ?b) u = Some r \<and> \<not> isUp r \<longrightarrow> down_alerted (step cfg e ?b) u"
    using con
  proof (cases rule: step_cases[where e = e])
    case (tick envs')
    show ?thesis
    proof (intro allI impI)
      fix u r assume "status_map (step cfg e ?b) u = Some r \<and> \<not> isUp r"
      then have "status_map ?b u = Some r" "\<not> isUp r" by (simp_all add: tick(2))
      from keep[OF S[OF this]] show "down_alerted (step cfg e ?b) u" .
    qed
  next
    case idle
    show ?thesis unfolding idle using S by blast
  next
    case (settle c i p)
    let ?n = "new_record cfg (env_of ?b c i) (url_of ?b c i) p"
    let ?u = "url_of ?b c i"
    show ?thesis
    proof (intro allI impI)
      fix u r assume h: "status_map (step cfg e ?b) u = Some r \<and> \<not> isUp r"
      show "down_alerted (step cfg e ?b) u"
      proof (cases "u = ?u")
        case False
        with h have "status_map ?b u = Some r" "\<not> isUp r" by (simp_all add: settle(7))
        from keep[OF S[OF this]] show ?thesis .
      next
        case True
        with h have r: "r = ?n" "\<not> isUp ?n" by (simp_all add: settle(7))
        show ?thesis
        proof (cases "isUp p")
          case False
          from keep[OF R[OF settle(2,3,5) False]] show ?thesis
            by (simp add: True settle(6))
        next
          case up: True
          have "\<exists>m \<in> set (posts (check_effects cfg (env_of ?b c i) ?u p)). is_DownAlert m"
            using new_record_props[of cfg "env_of ?b c i" ?u p] up r(2) by simp
          then show ?thesis
            unfolding down_alerted_def True
            by (intro exI[of _ c] exI[of _ i]) (simp add: settle(7))
        qed
      qed
    qed
  qed
  have R': "\<forall>c < length (begun (step cfg e ?b)). \<forall>i < length (serverUrls cfg). \<forall>p.
        read_by (step cfg e ?b) c i = Some p \<and> \<not> isUp p
          \<longrightarrow> down_alerted (step cfg e ?b) (serverUrls cfg ! i)"
  proof (intro allI impI)
    fix c i p
    assume c: "c < length (begun (step cfg e ?b))" and i: "i < length (serverUrls cfg)"
      and h: "read_by (step cfg e ?b) c i = Some p \<and> \<not> isUp p"
    show "down_alerted (step cfg e ?b) (serverUrls cfg ! i)"
    proof (cases "c < length (begun ?b)")
      case True
      then have "begun (step cfg e ?b) ! c = begun ?b ! c" by (rule step_begun(2))
      with h have "read_by ?b c i = Some p" "\<not> isUp p" by simp_all
      from keep[OF R[OF True i this]] show ?thesis .
    next
      case False
      show ?thesis
        using con
  proof (cases rule: step_cases[where e = e])
        case (tick envs')
        from False c have ceq: "c = length (begun ?b)" by (simp add: tick(2))
        from h have "status_map ?b (serverUrls cfg ! i) = Some p" "\<not> isUp p"
          using i by (simp_all add: tick(2) ceq begin_nth)
        from keep[OF S[OF this]] show ?thesis .
      next
        case idle
        with False c show ?thesis by simp
      next
        case (settle c' i' p')
        with False c show ?thesis by simp
      qed
    qed
  qed
  show ?case unfolding start_snoc using S' R' by blast
qed

section \<open>Example runs\<close>

lemma step_Settle_the:
  assumes "c < length (begun b)" and "i < length (begun b ! c)" and "outcomes b (c, i) = None"
    and "read_by b c i \<noteq> None"
  shows "step cfg (Settle c i) b =
     b\<lparr> status_map := (status_map b)(url_of b c i \<mapsto>
            new_record cfg (env_of b c i) (url_of b c i) (the (read_by b c i))),
        outcomes := (outcomes b)((c, i) \<mapsto>
           (Inr (new_record cfg (env_of b c i) (url_of b c i) (the (read_by b c i))),
            check_effects cfg (env_of b c i) (url_of b c i) (the (read_by b c i)))) \<rparr>"
proof -
  from assms(4) obtain p where p: "read_by b c i = Some p" by auto
  show ?thesis using step_Settle[OF assms(1,2,3) p, of cfg] by (simp add: p)
qed

lemma new_record_isUp:
  "isUp (new_record cfg env url p) \<longleftrightarrow>
      (\<exists>r. fst (makeHttpRequest cfg env) = Inr (Some r) \<and> status r \<in> set (successStatusCodes cfg))"
  using new_record_props[of cfg env url p] by blast

lemma new_record_count:
  "consecutiveFailures (new_record cfg env url p) =
       (if isUp (new_record cfg env url p) then 0 else consecutiveFailures p + 1)"
  using new_record_props[of cfg env url p] by blast

lemma new_record_posts:
  "posts (check_effects cfg env url p) =
         (if isUp p \<and> \<not> isUp (new_record cfg env url p) then
            [DownAlert url
               (case error (new_record cfg env url p) of None \<Rightarrow> ''No response''
                | Some e \<Rightarrow> if e = [] then ''No response'' else e)
               (consecutiveFailures (new_record cfg env url p)) (lastCheck (new_record cfg env url p))]
          else if \<not> isUp p \<and> isUp (new_record cfg env url p) \<and> sendRecoveryNotifications cfg then
            [RecoveryAlert url (statusCode (new_record cfg env url p))
               (responseTime (new_record cfg env url p)) (lastCheck (new_record cfg env url p))]
          else [])"
  using new_record_props[of cfg env url p] by blast

lemma probe_cfg:
  assumes "retryAttempts cfg' = retryAttempts cfg" and "retryDelay cfg' = retryDelay cfg"
  shows "makeHttpRequest cfg' env = makeHttpRequest cfg env"
proof -
  have "retryAttempts cfg' = retryAttempts cfg \<Longrightarrow> retryDelay cfg' = retryDelay cfg \<Longrightarrow>
      makeHttpRequest_loop cfg' env st a now = makeHttpRequest_loop cfg env st a now" for st a now
  proof (induction cfg env st a now rule: makeHttpRequest_loop.induct)
    case (1 cfg env startTime attempt now)
    show ?case
      apply (subst makeHttpRequest_loop.simps)
      apply (subst (2) makeHttpRequest_loop.simps)
      using 1 by (auto split: attempt_outcome.splits)
  qed
  then show ?thesis using assms by (simp add: makeHttpRequest_def)
qed

lemma one_target_facts:
  "serverUrls one_target = [''https://api.github.com'']"
  "serverUrls quiet_one = [''https://api.github.com'']"
  "serverUrls slow_one = [''https://api.github.com'']"
  "successStatusCodes one_target = [200, 201, 202, 204, 301, 302, 304]"
  "successStatusCodes quiet_one = [200, 201, 202, 204, 301, 302, 304]"
  "successStatusCodes slow_one = [200, 201, 202, 204, 301, 302, 304]"
  "sendRecoveryNotifications one_target" "\<not> sendRecoveryNotifications quiet_one"
  "sendRecoveryNotifications slow_one"
  by (simp_all add: one_target_def quiet_one_def slow_one_def default_config_def)

lemma one_target_probe:
  "makeHttpRequest one_target env = makeHttpRequest (default_config None) env"
  "makeHttpRequest quiet_one env = makeHttpRequest (default_config None) env"
  "makeHttpRequest slow_one env = makeHttpRequest (default_config None) env"
  by (rule probe_cfg; simp add: one_target_def quiet_one_def slow_one_def)+

lemma probe_refused_example:
  "fst (makeHttpRequest (default_config None) (example_env gets_refused)) =
     Inl ''Request failed after 3 attempts: connect ECONNREFUSED''"
  by (simp add: makeHttpRequest_def makeHttpRequest_loop.simps default_config_def example_env_def
      gets_refused_def timer_exact_def show_int_def show_nat.simps)

lemma probe_slow_example:
  "makeHttpRequest (default_config None) (example_env gets_slow_third_ok) =
     (Inr (Some (Response 200 63120)), 63120, [Get 1, Sleep 1000, Get 2, Sleep 2000, Get 3])"
  by (simp add: makeHttpRequest_def makeHttpRequest_loop.simps default_config_def example_env_def
      gets_slow_third_ok_def timer_exact_def)

lemma one_target_isUp:
  "\<not> isUp (new_record one_target (all_timeout i) u p)"
  "isUp (new_record one_target (all_ok i) u p)"
  "\<not> isUp (new_record quiet_one (all_timeout i) u p)"
  "isUp (new_record quiet_one (all_ok i) u p)"
  "\<not> isUp (new_record slow_one (all_refused i) u p)"
  "isUp (new_record slow_one (all_ok i) u p)"
  "isUp (new_record slow_one (all_slow_third_ok i) u p)"
  by (simp_all add: new_record_isUp one_target_probe one_target_facts all_timeout_def all_ok_def
      all_refused_def all_slow_third_ok_def probe_ok_example probe_timeout_example
      probe_refused_example probe_slow_example)

lemma start_one:
  assumes "serverUrls cfg = [u]"
  shows "start cfg envs [] =
     \<lparr> status_map = initServerStatus cfg, begun = [[(u, Some initialStatus, envs 0)]],
       outcomes = Map.empty \<rparr>"
  by (simp add: start_nil performHealthCheck_begin_def assms init_lookup)

section \<open>The count of consecutive failures\<close>


lemma two_more_cycles_run:
  "settled (start one_target all_ok two_more_cycles) 0 0"
  "settled (start one_target all_ok two_more_cycles) 1 0"
  "settled (start one_target all_ok two_more_cycles) 2 0"
  "read_by (start one_target all_ok two_more_cycles) 1 0 =
     Some (written_by (start one_target all_ok two_more_cycles) 0 0)"
  "read_by (start one_target all_ok two_more_cycles) 2 0 =
     Some (written_by (start one_target all_ok two_more_cycles) 1 0)"
  "env_of (start one_target all_ok two_more_cycles) 0 0 = all_ok 0"
  "env_of (start one_target all_ok two_more_cycles) 1 0 = all_timeout 0"
  "env_of (start one_target all_ok two_more_cycles) 2 0 = all_timeout 0"
  "status_map (start one_target all_ok two_more_cycles) ''https://api.github.com'' =
     Some (written_by (start one_target all_ok two_more_cycles) 2 0)"
  by (simp_all add: start_def run_def boot_def two_more_cycles_def step_Settle_the
      performHealthCheck_begin_def one_target_facts init_lookup del: step.simps(2))

lemma summary_settled:
  assumes "consistent cfg b" and "c < length (begun b)"
    and "\<forall>i < length (serverUrls cfg). settled b c i"
  shows "performHealthCheck_summary b c =
     Some \<lparr> upCount = int (length (filter (\<lambda>i. isUp (written_by b c i)) [0..<length (serverUrls cfg)])),
            downCount = int (length (filter (\<lambda>i. \<not> isUp (written_by b c i)) [0..<length (serverUrls cfg)])),
            results = map (\<lambda>i. Inr (written_by b c i)) [0..<length (serverUrls cfg)],
            effects = map (\<lambda>i. effects_of b c i) [0..<length (serverUrls cfg)] \<rparr>"
proof -
  from assms(1,2) have len: "length (begun b ! c) = length (serverUrls cfg)"
    unfolding consistent_def by blast
  have all: "list_all (\<lambda>i. outcomes b (c, i) \<noteq> None) [0..<length (serverUrls cfg)]"
    using assms(3) by (simp add: list_all_iff)
  have res: "map (\<lambda>i. result_of b c i) [0..<length (serverUrls cfg)] =
      map (\<lambda>i. Inr (written_by b c i)) [0..<length (serverUrls cfg)]"
  proof (rule map_cong[OF refl])
    fix i assume "i \<in> set [0..<length (serverUrls cfg)]"
    then have "settled b c i" using assms(3) by simp
    from settled_check(5)[OF assms(1) this] show "result_of b c i = Inr (written_by b c i)" by simp
  qed
  show ?thesis
    unfolding performHealthCheck_summary_def len Let_def
    using assms(2) all
    by (simp add: comp_def res count_results_eq filter_map del: upt_Suc)
qed








section \<open>Notifications on transitions\<close>


lemma one_more_cycle_run:
  "settled (start one_target all_timeout one_more_cycle) 0 0"
  "settled (start one_target all_timeout one_more_cycle) 1 0"
  "read_by (start one_target all_timeout one_more_cycle) 1 0 =
     Some (written_by (start one_target all_timeout one_more_cycle) 0 0)"
  "env_of (start one_target all_timeout one_more_cycle) 0 0 = all_timeout 0"
  "env_of (start one_target all_timeout one_more_cycle) 1 0 = all_ok 0"
  by (simp_all add: start_def run_def boot_def one_more_cycle_def step_Settle_the
      performHealthCheck_begin_def one_target_facts init_lookup del: step.simps(2))





section \<open>Recovery notifications and the initial records\<close>

lemma recovery_pending:
  "outcomes (start one_target all_timeout [Settle 0 0, Tick all_ok]) (1, 0) = None"
  "step one_target (Settle 1 0) (start one_target all_timeout [Settle 0 0, Tick all_ok]) =
     start one_target all_timeout one_more_cycle"
  by (simp_all add: start_def run_def boot_def one_more_cycle_def step_Settle_the
      performHealthCheck_begin_def one_target_facts init_lookup del: step.simps(2))




text \<open>
  Claim C6. \<open>start\<close> stores one record for every configured URL and for no other key:
  \<open>isUp = True\<close>, \<open>consecutiveFailures = 0\<close>, no \<open>lastCheck\<close>, and this is the record
  every check of the first cycle reads. So in every run a check of the first cycle posts
  nothing for a target it classifies up and one DOWN alert for a target it classifies
  down; and a check that posts a recovery notification for a target settles after a
  check that posted a DOWN alert for the same target.
\<close>

theorem start_assumes_healthy:
  fixes cfg :: config and envs :: "nat \<Rightarrow> check_env" and sched :: "event list" and b :: bot
  defines "b \<equiv> start cfg envs sched"
  shows "dom (initServerStatus cfg) = set (serverUrls cfg)
     \<and> (\<forall>u \<in> set (serverUrls cfg). initServerStatus cfg u =
           Some \<lparr> isUp = True, lastCheck = None, consecutiveFailures = 0,
                  statusCode = None, responseTime = None, error = None \<rparr>)
     \<and> status_map (start cfg envs []) = initServerStatus cfg
     \<and> (\<forall>i < length (serverUrls cfg). read_by b 0 i =
           Some \<lparr> isUp = True, lastCheck = None, consecutiveFailures = 0,
                  statusCode = None, responseTime = None, error = None \<rparr>)
     \<and> (\<forall>i. settled b 0 i \<and> isUp (written_by b 0 i) \<longrightarrow> posts (effects_of b 0 i) = [])
     \<and> (\<forall>i. settled b 0 i \<and> \<not> isUp (written_by b 0 i)
          \<longrightarrow> length (posts (effects_of b 0 i)) = 1 \<and> list_all is_DownAlert (posts (effects_of b 0 i)))
     \<and> (\<forall>c i. settled b c i \<and> (\<exists>m \<in> set (posts (effects_of b c i)). is_RecoveryAlert m)
          \<longrightarrow> (\<exists>c' i'. (c', i') \<noteq> (c, i) \<and> settled b c' i' \<and> url_of b c' i' = url_of b c i
                 \<and> (\<exists>m \<in> set (posts (effects_of b c' i')). is_DownAlert m)))
     \<and> (\<forall>c i. \<not> settled b c i \<and> settled (step cfg (Settle c i) b) c i
             \<and> (\<exists>m \<in> set (posts (effects_of (step cfg (Settle c i) b) c i)). is_RecoveryAlert m)
          \<longrightarrow> (\<exists>c' i'. settled b c' i' \<and> url_of b c' i' = url_of b c i
                 \<and> (\<exists>m \<in> set (posts (effects_of b c' i')). is_DownAlert m)))"
proof -
  note con = consistent_start[of cfg envs sched, folded b_def]
  note al = start_alerted[of cfg envs sched, folded b_def, THEN conjunct2, rule_format]
  have a: "dom (initServerStatus cfg) = set (serverUrls cfg)"
    by (auto simp: init_lookup dom_def)
  have i: "\<forall>u \<in> set (serverUrls cfg). initServerStatus cfg u =
           Some \<lparr> isUp = True, lastCheck = None, consecutiveFailures = 0,
                  statusCode = None, responseTime = None, error = None \<rparr>"
    by (simp add: init_lookup initialStatus_def)
  have s: "status_map (start cfg envs []) = initServerStatus cfg"
    by (simp add: start_nil)
  have r: "\<forall>i < length (serverUrls cfg). read_by b 0 i =
           Some \<lparr> isUp = True, lastCheck = None, consecutiveFailures = 0,
                  statusCode = None, responseTime = None, error = None \<rparr>"
    unfolding b_def by (simp add: first_read(1) initialStatus_def)
  have first: "isUp (the (read_by b 0 i))" if "settled b 0 i" for i
    using r settled_check(2)[OF con that] by simp
  have u: "\<forall>i. settled b 0 i \<and> isUp (written_by b 0 i) \<longrightarrow> posts (effects_of b 0 i) = []"
  proof (intro allI impI)
    fix i assume h: "settled b 0 i \<and> isUp (written_by b 0 i)"
    then have s: "settled b 0 i" by simp
    show "posts (effects_of b 0 i) = []"
      unfolding check_posts[OF con s] using h first[OF s] by simp
  qed
  have d: "\<forall>i. settled b 0 i \<and> \<not> isUp (written_by b 0 i)
          \<longrightarrow> length (posts (effects_of b 0 i)) = 1 \<and> list_all is_DownAlert (posts (effects_of b 0 i))"
  proof (intro allI impI)
    fix i assume h: "settled b 0 i \<and> \<not> isUp (written_by b 0 i)"
    then have s: "settled b 0 i" by simp
    show "length (posts (effects_of b 0 i)) = 1 \<and> list_all is_DownAlert (posts (effects_of b 0 i))"
      unfolding check_posts[OF con s] using h first[OF s] by simp
  qed
  have v: "\<forall>c i. settled b c i \<and> (\<exists>m \<in> set (posts (effects_of b c i)). is_RecoveryAlert m)
          \<longrightarrow> (\<exists>c' i'. (c', i') \<noteq> (c, i) \<and> settled b c' i' \<and> url_of b c' i' = url_of b c i
                 \<and> (\<exists>m \<in> set (posts (effects_of b c' i')). is_DownAlert m))"
  proof (intro allI impI)
    fix c i assume h: "settled b c i \<and> (\<exists>m \<in> set (posts (effects_of b c i)). is_RecoveryAlert m)"
    then have s: "settled b c i" by simp
    note p = check_posts[OF con s]
    from h have dn: "\<not> isUp (the (read_by b c i))" unfolding p by (auto split: if_splits)
    from h have nd: "\<not> (\<exists>m \<in> set (posts (effects_of b c i)). is_DownAlert m)"
      unfolding p by (auto split: if_splits)
    have "down_alerted b (serverUrls cfg ! i)"
      using al[OF settled_check(1)[OF con s] settled_check(2)[OF con s], of "the (read_by b c i)"]
        settled_check(4)[OF con s] dn by simp
    then obtain c' i' where w: "settled b c' i'" "url_of b c' i' = serverUrls cfg ! i"
        "\<exists>m \<in> set (posts (effects_of b c' i')). is_DownAlert m"
      unfolding down_alerted_def by blast
    from w(3) nd have "(c', i') \<noteq> (c, i)" by auto
    with w settled_check(3)[OF con s]
    show "\<exists>c' i'. (c', i') \<noteq> (c, i) \<and> settled b c' i' \<and> url_of b c' i' = url_of b c i
                 \<and> (\<exists>m \<in> set (posts (effects_of b c' i')). is_DownAlert m)"
      by (intro exI[of _ c'] exI[of _ i']) simp
  qed
  have w: "\<forall>c i. \<not> settled b c i \<and> settled (step cfg (Settle c i) b) c i
             \<and> (\<exists>m \<in> set (posts (effects_of (step cfg (Settle c i) b) c i)). is_RecoveryAlert m)
          \<longrightarrow> (\<exists>c' i'. settled b c' i' \<and> url_of b c' i' = url_of b c i
                 \<and> (\<exists>m \<in> set (posts (effects_of b c' i')). is_DownAlert m))"
  proof (intro allI impI)
    fix c i
    let ?b' = "step cfg (Settle c i) b"
    assume h: "\<not> settled b c i \<and> settled ?b' c i
             \<and> (\<exists>m \<in> set (posts (effects_of ?b' c i)). is_RecoveryAlert m)"
    then have s': "settled ?b' c i" by simp
    have con': "consistent cfg ?b'" by (rule consistent_step[OF con])
    have v: "c < length (begun b) \<and> i < length (begun b ! c) \<and> outcomes b (c, i) = None"
    proof (rule ccontr)
      assume n: "\<not> (c < length (begun b) \<and> i < length (begun b ! c) \<and> outcomes b (c, i) = None)"
      have eq: "?b' = b" by (rule step_Settle_idle[OF n])
      from s' have "settled b c i" unfolding eq .
      with h show False by blast
    qed
    then have c: "c < length (begun b)" by simp
    have same: "begun ?b' ! c = begun b ! c" by (rule step_begun(2)[OF c])
    note p = check_posts[OF con' s']
    from h have "\<not> isUp (the (read_by ?b' c i))" unfolding p by (auto split: if_splits)
    then have dn: "\<not> isUp (the (read_by b c i))" unfolding same .
    have i: "i < length (serverUrls cfg)" by (rule settled_check(2)[OF con' s'])
    have rd: "read_by b c i = Some (the (read_by b c i))"
      using settled_check(4)[OF con' s'] unfolding same .
    have ur: "url_of b c i = serverUrls cfg ! i"
      using settled_check(3)[OF con' s'] unfolding same .
    have "down_alerted b (serverUrls cfg ! i)"
      using al[OF c i, of "the (read_by b c i)"] rd dn by simp
    then show "\<exists>c' i'. settled b c' i' \<and> url_of b c' i' = url_of b c i
                 \<and> (\<exists>m \<in> set (posts (effects_of b c' i')). is_DownAlert m)"
      unfolding down_alerted_def ur by blast
  qed
  from a i s r u d v w show ?thesis by (intro conjI)
qed

theorem start_assumes_healthy_witness:
  "initServerStatus one_target ''https://api.github.com'' =
       Some \<lparr> isUp = True, lastCheck = None, consecutiveFailures = 0,
              statusCode = None, responseTime = None, error = None \<rparr>
   \<and> read_by (start one_target all_timeout one_more_cycle) 0 0 =
       Some \<lparr> isUp = True, lastCheck = None, consecutiveFailures = 0,
              statusCode = None, responseTime = None, error = None \<rparr>
   \<and> settled (start one_target all_ok two_more_cycles) 0 0
   \<and> isUp (written_by (start one_target all_ok two_more_cycles) 0 0)
   \<and> posts (effects_of (start one_target all_ok two_more_cycles) 0 0) = []
   \<and> settled (start one_target all_timeout one_more_cycle) 0 0
   \<and> \<not> isUp (written_by (start one_target all_timeout one_more_cycle) 0 0)
   \<and> length (posts (effects_of (start one_target all_timeout one_more_cycle) 0 0)) = 1
   \<and> list_all is_DownAlert (posts (effects_of (start one_target all_timeout one_more_cycle) 0 0))
   \<and> settled (start one_target all_timeout one_more_cycle) 1 0
   \<and> length (filter is_RecoveryAlert (posts (effects_of (start one_target all_timeout one_more_cycle) 1 0))) = 1
   \<and> (\<exists>c' i'. (c', i') \<noteq> (1, 0) \<and> settled (start one_target all_timeout one_more_cycle) c' i'
         \<and> url_of (start one_target all_timeout one_more_cycle) c' i' =
             url_of (start one_target all_timeout one_more_cycle) 1 0
         \<and> filter is_DownAlert (posts (effects_of (start one_target all_timeout one_more_cycle) c' i')) \<noteq> [])
   \<and> outcomes (start one_target all_timeout [Settle 0 0, Tick all_ok]) (1, 0) = None
   \<and> step one_target (Settle 1 0) (start one_target all_timeout [Settle 0 0, Tick all_ok]) =
       start one_target all_timeout one_more_cycle
   \<and> (\<exists>c' i'. settled (start one_target all_timeout [Settle 0 0, Tick all_ok]) c' i'
         \<and> url_of (start one_target all_timeout [Settle 0 0, Tick all_ok]) c' i' =
             url_of (start one_target all_timeout [Settle 0 0, Tick all_ok]) 1 0
         \<and> filter is_DownAlert (posts (effects_of (start one_target all_timeout [Settle 0 0, Tick all_ok]) c' i')) \<noteq> [])"
proof -
  let ?b = "start one_target all_timeout one_more_cycle"
  let ?u = "start one_target all_ok two_more_cycles"
  let ?p = "start one_target all_timeout [Settle 0 0, Tick all_ok]"
  let ?init = "\<lparr> isUp = True, lastCheck = None, consecutiveFailures = 0,
              statusCode = None, responseTime = None, error = None \<rparr>"
  note r = one_more_cycle_run
  note t = two_more_cycles_run
  note pend = recovery_pending
  note con = consistent_start[of one_target all_timeout one_more_cycle]
  note cu = consistent_start[of one_target all_ok two_more_cycles]
  have d0: "\<not> isUp (written_by ?b 0 0)"
    unfolding check_isUp[OF con r(1)] r(4) using one_target_isUp(1)[of 0] by (simp add: new_record_isUp)
  have u1: "isUp (written_by ?b 1 0)"
    unfolding check_isUp[OF con r(2)] r(5) using one_target_isUp(2)[of 0] by (simp add: new_record_isUp)
  have u0: "isUp (written_by ?u 0 0)"
    unfolding check_isUp[OF cu t(1)] t(6) using one_target_isUp(2)[of 0] by (simp add: new_record_isUp)
  have e: "sendRecoveryNotifications one_target" by (simp add: one_target_facts)
  have rec: "length (filter is_RecoveryAlert (posts (effects_of ?b 1 0))) = 1"
    using d0 u1 e r(3) unfolding check_posts[OF con r(2)] by simp
  then have ex: "\<exists>m \<in> set (posts (effects_of ?b 1 0)). is_RecoveryAlert m"
    by (metis filter_empty_conv length_0_conv zero_neq_one)
  have g: "''https://api.github.com'' \<in> set (serverUrls one_target)" by (simp add: one_target_facts)
  have i: "0 < length (serverUrls one_target)" by (simp add: one_target_facts)
  note B = start_assumes_healthy[of one_target all_timeout one_more_cycle]
  note U = start_assumes_healthy[of one_target all_ok two_more_cycles]
  note P = start_assumes_healthy[of one_target all_timeout "[Settle 0 0, Tick all_ok]"]
  from B g have a: "initServerStatus one_target ''https://api.github.com'' = Some ?init" by blast
  from B i have b: "read_by ?b 0 0 = Some ?init" by blast
  from U t(1) u0 have c: "posts (effects_of ?u 0 0) = []" by blast
  from B r(1) d0 have d: "length (posts (effects_of ?b 0 0)) = 1 \<and> list_all is_DownAlert (posts (effects_of ?b 0 0))"
    by blast
  from B r(2) ex have "\<exists>c' i'. (c', i') \<noteq> (1, 0) \<and> settled ?b c' i' \<and> url_of ?b c' i' = url_of ?b 1 0
                 \<and> (\<exists>m \<in> set (posts (effects_of ?b c' i')). is_DownAlert m)"
    by blast
  then have f: "\<exists>c' i'. (c', i') \<noteq> (1, 0) \<and> settled ?b c' i' \<and> url_of ?b c' i' = url_of ?b 1 0
                 \<and> filter is_DownAlert (posts (effects_of ?b c' i')) \<noteq> []"
    by (simp add: filter_empty_conv)
  have ns: "\<not> settled ?p 1 0" using pend(1) by simp
  have s': "settled (step one_target (Settle 1 0) ?p) 1 0" unfolding pend(2) by (rule r(2))
  have ex': "\<exists>m \<in> set (posts (effects_of (step one_target (Settle 1 0) ?p) 1 0)). is_RecoveryAlert m"
    unfolding pend(2) by (rule ex)
  have hyp: "\<not> settled ?p 1 0 \<and> settled (step one_target (Settle 1 0) ?p) 1 0
      \<and> (\<exists>m \<in> set (posts (effects_of (step one_target (Settle 1 0) ?p) 1 0)). is_RecoveryAlert m)"
    by (intro conjI) (fact ns s' ex')+
  note P8 = P[THEN conjunct2, THEN conjunct2, THEN conjunct2, THEN conjunct2, THEN conjunct2,
      THEN conjunct2, THEN conjunct2, rule_format, of 1 0]
  from P8[OF hyp] have h: "\<exists>c' i'. settled ?p c' i' \<and> url_of ?p c' i' = url_of ?p 1 0
                 \<and> filter is_DownAlert (posts (effects_of ?p c' i')) \<noteq> []"
    by (simp add: filter_empty_conv)
  show ?thesis
    by (intro conjI) (fact a b t(1) u0 c r(1) d0 d[THEN conjunct1] d[THEN conjunct2] r(2) rec f pend(1) pend(2) h)+
qed

section \<open>Checks never reject; the summary of a cycle\<close>

lemma step_Settle_begun: "begun (step cfg (Settle c i) b) = begun b"
  by (auto split: prod.splits)

lemma run_shape:
  "\<forall>c < length (begun (run cfg evs (boot st))).
      length (begun (run cfg evs (boot st)) ! c) = length (serverUrls cfg)"
proof (induction evs rule: rev_induct)
  case Nil
  show ?case by (simp add: run_def boot_def)
next
  case (snoc e evs)
  let ?b = "run cfg evs (boot st)"
  show ?case
  proof (cases e)
    case (Tick envs)
    have s: "begun (step cfg e ?b) = begun ?b @ [performHealthCheck_begin cfg envs (status_map ?b)]"
      by (simp add: Tick)
    show ?thesis unfolding run_snoc s using snoc
      by (auto simp: nth_append begin_length less_Suc_eq)
  next
    case (Settle c i)
    show ?thesis unfolding run_snoc Settle step_Settle_begun by (rule snoc)
  qed
qed

lemma summary_counts:
  assumes "performHealthCheck_summary b c = Some rep"
  shows "length (results rep) = length (begun b ! c)"
    and "upCount rep + downCount rep = int (length (begun b ! c))"
    and "upCount rep = int (length (filter (\<lambda>r. case r of Inr v \<Rightarrow> isUp v | Inl e \<Rightarrow> False) (results rep)))"
    and "c < length (begun b)"
    and "\<forall>i < length (begun b ! c). settled b c i \<and> results rep ! i = result_of b c i"
proof -
  let ?n = "length (begun b ! c)"
  let ?outs = "map (\<lambda>i. the (outcomes b (c, i))) [0..<?n]"
  let ?up = "\<lambda>r. case r of Inr v \<Rightarrow> isUp v | Inl e \<Rightarrow> False"
  from assms have ok: "c < length (begun b) \<and> list_all (\<lambda>i. outcomes b (c, i) \<noteq> None) [0..<?n]"
    unfolding performHealthCheck_summary_def by (simp split: if_splits)
  from assms ok have rep: "rep = \<lparr> upCount = int (length (filter ?up (map fst ?outs))),
        downCount = int (length (filter (\<lambda>r. \<not> ?up r) (map fst ?outs))),
        results = map fst ?outs, effects = map snd ?outs \<rparr>"
    unfolding performHealthCheck_summary_def Let_def by (simp add: count_results_eq)
  have s: "length (filter P xs) + length (filter (\<lambda>x. \<not> P x) xs) = length xs" for P and xs :: "'a list"
    by (induction xs) auto
  show "length (results rep) = ?n" by (simp add: rep)
  show "upCount rep + downCount rep = int ?n"
    using s[of ?up "map fst ?outs"] by (simp add: rep del: upt_Suc)
  show "upCount rep = int (length (filter ?up (results rep)))" by (simp add: rep)
  show "c < length (begun b)" using ok by simp
  show "\<forall>i < ?n. settled b c i \<and> results rep ! i = result_of b c i"
    using ok by (simp add: rep list_all_iff)
qed

lemma settle_settles:
  assumes "consistent cfg b" and "c < length (begun b)" and "i < length (serverUrls cfg)"
  shows "settled (step cfg (Settle c i) b) c i"
proof (cases "outcomes b (c, i)")
  case (Some out)
  show ?thesis using step_outcomes[OF Some, of cfg "Settle c i"] by simp
next
  case None
  from assms have l: "length (begun b ! c) = length (serverUrls cfg)" and r: "read_by b c i \<noteq> None"
    unfolding consistent_def by blast+
  from l assms(3) have i: "i < length (begun b ! c)" by simp
  show ?thesis unfolding step_Settle_the[OF assms(2) i None r] by simp
qed

lemma two_targets_facts:
  "distinct (serverUrls two_targets)" "length (serverUrls two_targets) = 2"
  "serverUrls two_targets ! 0 = ''https://good.example''"
  "serverUrls two_targets ! Suc 0 = ''https://bad.example''"
  "successStatusCodes two_targets = [200, 201, 202, 204, 301, 302, 304]"
  "retryAttempts two_targets = 2" "retryDelay two_targets = 1000"
  by (simp_all add: two_targets_def default_config_def)

lemma two_targets_probes:
  "fst (makeHttpRequest two_targets (first_ok 0)) = Inr (Some (Response 200 80))"
  "fst (makeHttpRequest two_targets (first_ok (Suc 0))) =
     Inl ''Request failed after 2 attempts: timeout of 10000ms exceeded''"
  by (simp_all add: makeHttpRequest_def makeHttpRequest_loop.simps two_targets_facts first_ok_def
      example_env_def gets_ok_def gets_timeout_def timer_exact_def show_int_def show_nat.simps)

lemma two_targets_urls:
  "serverUrls two_targets = [''https://good.example'', ''https://bad.example'']"
  by (simp add: two_targets_def)

lemma two_targets_run:
  "settled (start two_targets first_ok [Settle 0 0, Settle 0 1]) 0 0"
  "settled (start two_targets first_ok [Settle 0 0, Settle 0 1]) 0 1"
  "length (begun (start two_targets first_ok [Settle 0 0, Settle 0 1])) = 1"
  by (simp_all add: start_def run_def boot_def step_Settle_the
      performHealthCheck_begin_def two_targets_urls init_lookup upt_rec del: step.simps(2))

text \<open>
  Claim C7. A check of a target that has a stored record is fulfilled, never rejected:
  an error thrown by the probe ends in a record with \<open>isUp = False\<close> that carries the
  error message. A cycle starts one check for every configured target, each with the
  record stored for its own URL and its own environment. Whenever the summary of a cycle
  is logged, it holds one result for every configured target, \<open>upCount + downCount\<close> is
  the number of configured targets and \<open>upCount\<close> is the number of results that are
  fulfilled with \<open>isUp = True\<close>. When every configured target has a stored record, as
  after \<open>start\<close>, the result of a check is the record it builds from the record it read
  and its own environment; every pending check can settle whatever the other checks
  did, and it is fulfilled; a cycle whose checks have all settled logs its summary.
\<close>

theorem checks_never_reject:
  fixes cfg :: config and envs :: "nat \<Rightarrow> check_env" and sched :: "event list" and b :: bot
  defines "b \<equiv> start cfg envs sched"
  shows "(\<exists>cur es. checkServerHealth cfg env url (serverStatus(url \<mapsto> p)) =
                (Inr cur, serverStatus(url \<mapsto> cur), es)
       \<and> (\<forall>m. fst (makeHttpRequest cfg env) = Inl m \<longrightarrow> \<not> isUp cur \<and> error cur = Some m))
   \<and> length (performHealthCheck_begin cfg envs' st) = length (serverUrls cfg)
   \<and> (\<forall>i < length (serverUrls cfg).
         performHealthCheck_begin cfg envs' st ! i = (serverUrls cfg ! i, st (serverUrls cfg ! i), envs' i))
   \<and> (\<forall>c rep. performHealthCheck_summary (run cfg evs (boot st)) c = Some rep \<longrightarrow>
         length (results rep) = length (serverUrls cfg)
       \<and> upCount rep + downCount rep = int (length (serverUrls cfg))
       \<and> upCount rep =
           int (length (filter (\<lambda>r. case r of Inr v \<Rightarrow> isUp v | Inl e \<Rightarrow> False) (results rep))))
   \<and> (set (serverUrls cfg) \<subseteq> dom st \<longrightarrow>
        (\<forall>c i. settled (run cfg evs (boot st)) c i \<longrightarrow>
            result_of (run cfg evs (boot st)) c i =
              Inr (new_record cfg (env_of (run cfg evs (boot st)) c i) (serverUrls cfg ! i)
                     (the (read_by (run cfg evs (boot st)) c i)))))
   \<and> (\<forall>c i. c < length (begun b) \<and> i < length (serverUrls cfg) \<longrightarrow>
         settled (step cfg (Settle c i) b) c i \<and> \<not> isl (result_of (step cfg (Settle c i) b) c i))
   \<and> (\<forall>c. c < length (begun b) \<and> (\<forall>i < length (serverUrls cfg). settled b c i) \<longrightarrow>
         performHealthCheck_summary b c \<noteq> None)
   \<and> (\<forall>c rep. performHealthCheck_summary b c = Some rep \<longrightarrow>
         upCount rep + downCount rep = int (length (serverUrls cfg))
       \<and> (\<forall>i < length (serverUrls cfg). \<not> isl (results rep ! i)))"
proof -
  note con = consistent_start[of cfg envs sched, folded b_def]
  have a: "\<exists>cur es. checkServerHealth cfg env url (serverStatus(url \<mapsto> p)) =
                (Inr cur, serverStatus(url \<mapsto> cur), es)
       \<and> (\<forall>m. fst (makeHttpRequest cfg env) = Inl m \<longrightarrow> \<not> isUp cur \<and> error cur = Some m)"
  proof -
    from check_from_Some[of cfg env url p "serverStatus(url \<mapsto> p)"] obtain cur es where
      c: "checkServerHealth_from cfg env url (Some p) (serverStatus(url \<mapsto> p)) =
          (Inr cur, (serverStatus(url \<mapsto> p))(url \<mapsto> cur), es)"
      and u: "isUp cur \<longleftrightarrow>
          (\<exists>r. fst (makeHttpRequest cfg env) = Inr (Some r) \<and> status r \<in> set (successStatusCodes cfg))"
      and er: "error cur = (case fst (makeHttpRequest cfg env) of Inr (Some r) \<Rightarrow> None
                     | Inr None \<Rightarrow> Some (undefined_read ''status'') | Inl m \<Rightarrow> Some m)"
      by blast
    have w: "checkServerHealth cfg env url (serverStatus(url \<mapsto> p)) = (Inr cur, serverStatus(url \<mapsto> cur), es)"
      by (simp add: checkServerHealth_def c)
    have f: "\<forall>m. fst (makeHttpRequest cfg env) = Inl m \<longrightarrow> \<not> isUp cur \<and> error cur = Some m"
      using u er by auto
    show ?thesis using w f by blast
  qed
  have l: "length (performHealthCheck_begin cfg envs' st) = length (serverUrls cfg)"
    by (rule begin_length)
  have n: "\<forall>i < length (serverUrls cfg).
         performHealthCheck_begin cfg envs' st ! i = (serverUrls cfg ! i, st (serverUrls cfg ! i), envs' i)"
    by (simp add: begin_nth)
  have s: "\<forall>c rep. performHealthCheck_summary (run cfg evs (boot st)) c = Some rep \<longrightarrow>
         length (results rep) = length (serverUrls cfg)
       \<and> upCount rep + downCount rep = int (length (serverUrls cfg))
       \<and> upCount rep =
           int (length (filter (\<lambda>r. case r of Inr v \<Rightarrow> isUp v | Inl e \<Rightarrow> False) (results rep)))"
  proof (intro allI impI)
    fix c rep assume h: "performHealthCheck_summary (run cfg evs (boot st)) c = Some rep"
    note k = summary_counts[OF h]
    from run_shape[of cfg evs st] k(4)
    have len: "length (begun (run cfg evs (boot st)) ! c) = length (serverUrls cfg)" by blast
    show "length (results rep) = length (serverUrls cfg)
       \<and> upCount rep + downCount rep = int (length (serverUrls cfg))
       \<and> upCount rep =
           int (length (filter (\<lambda>r. case r of Inr v \<Rightarrow> isUp v | Inl e \<Rightarrow> False) (results rep)))"
      using k(1,2,3) unfolding len by (intro conjI)
  qed
  have r: "set (serverUrls cfg) \<subseteq> dom st \<longrightarrow>
        (\<forall>c i. settled (run cfg evs (boot st)) c i \<longrightarrow>
            result_of (run cfg evs (boot st)) c i =
              Inr (new_record cfg (env_of (run cfg evs (boot st)) c i) (serverUrls cfg ! i)
                     (the (read_by (run cfg evs (boot st)) c i))))"
  proof (intro allI impI)
    fix c i
    assume d: "set (serverUrls cfg) \<subseteq> dom st" and t: "settled (run cfg evs (boot st)) c i"
    have cr: "consistent cfg (run cfg evs (boot st))"
      by (rule consistent_run[OF consistent_boot[OF d]])
    show "result_of (run cfg evs (boot st)) c i =
              Inr (new_record cfg (env_of (run cfg evs (boot st)) c i) (serverUrls cfg ! i)
                     (the (read_by (run cfg evs (boot st)) c i)))"
      using settled_check(5)[OF cr t] unfolding settled_check(3)[OF cr t] .
  qed
  have g: "\<forall>c i. c < length (begun b) \<and> i < length (serverUrls cfg) \<longrightarrow>
         settled (step cfg (Settle c i) b) c i \<and> \<not> isl (result_of (step cfg (Settle c i) b) c i)"
  proof (intro allI impI)
    fix c i assume h: "c < length (begun b) \<and> i < length (serverUrls cfg)"
    let ?b' = "step cfg (Settle c i) b"
    have con': "consistent cfg ?b'" by (rule consistent_step[OF con])
    from h have s': "settled ?b' c i" by (intro settle_settles[OF con]) simp_all
    have "\<not> isl (result_of ?b' c i)" unfolding settled_check(5)[OF con' s'] by simp
    with s' show "settled ?b' c i \<and> \<not> isl (result_of ?b' c i)" by (rule conjI)
  qed
  have q: "\<forall>c. c < length (begun b) \<and> (\<forall>i < length (serverUrls cfg). settled b c i) \<longrightarrow>
         performHealthCheck_summary b c \<noteq> None"
  proof (intro allI impI)
    fix c assume h: "c < length (begun b) \<and> (\<forall>i < length (serverUrls cfg). settled b c i)"
    then have c: "c < length (begun b)" and al: "\<forall>i < length (serverUrls cfg). settled b c i"
      by simp_all
    show "performHealthCheck_summary b c \<noteq> None"
      unfolding summary_settled[OF con c al] by simp
  qed
  have e: "\<forall>c rep. performHealthCheck_summary b c = Some rep \<longrightarrow>
         upCount rep + downCount rep = int (length (serverUrls cfg))
       \<and> (\<forall>i < length (serverUrls cfg). \<not> isl (results rep ! i))"
  proof (intro allI impI)
    fix c rep assume h: "performHealthCheck_summary b c = Some rep"
    note k = summary_counts[OF h]
    from con k(4) have len: "length (begun b ! c) = length (serverUrls cfg)"
      unfolding consistent_def by blast
    have sum: "upCount rep + downCount rep = int (length (serverUrls cfg))"
      using k(2) unfolding len .
    have fu: "\<forall>i < length (serverUrls cfg). \<not> isl (results rep ! i)"
    proof (intro allI impI)
      fix i assume i: "i < length (serverUrls cfg)"
      with k(5) len have si: "settled b c i" and ri: "results rep ! i = result_of b c i" by simp_all
      show "\<not> isl (results rep ! i)" unfolding ri settled_check(5)[OF con si] by simp
    qed
    from sum fu show "upCount rep + downCount rep = int (length (serverUrls cfg))
       \<and> (\<forall>i < length (serverUrls cfg). \<not> isl (results rep ! i))"
      by (rule conjI)
  qed
  from a l n s r g q e show ?thesis by (intro conjI)
qed

theorem checks_never_reject_witness:
  "set (serverUrls two_targets) \<subseteq> dom (initServerStatus two_targets)
   \<and> length (serverUrls two_targets) = 2
   \<and> isl (fst (makeHttpRequest two_targets (first_ok 1)))
   \<and> settled (start two_targets first_ok [Settle 0 0, Settle 0 1]) 0 0
   \<and> settled (start two_targets first_ok [Settle 0 0, Settle 0 1]) 0 1
   \<and> map_option upCount (performHealthCheck_summary (start two_targets first_ok [Settle 0 0, Settle 0 1]) 0) = Some 1
   \<and> map_option downCount (performHealthCheck_summary (start two_targets first_ok [Settle 0 0, Settle 0 1]) 0) = Some 1
   \<and> \<not> isl (result_of (start two_targets first_ok [Settle 0 0, Settle 0 1]) 0 1)
   \<and> posts (effects_of (start two_targets first_ok [Settle 0 0, Settle 0 1]) 0 0) = []
   \<and> length (posts (effects_of (start two_targets first_ok [Settle 0 0, Settle 0 1]) 0 1)) = 1
   \<and> list_all is_DownAlert (posts (effects_of (start two_targets first_ok [Settle 0 0, Settle 0 1]) 0 1))"
proof -
  let ?cfg = two_targets
  let ?st = "initServerStatus two_targets"
  let ?b = "start two_targets first_ok [Settle 0 0, Settle 0 1]"
  note f = two_targets_facts
  note w = two_targets_run
  note con = consistent_start[of two_targets first_ok "[Settle 0 0, Settle 0 1]"]
  have dm: "set (serverUrls ?cfg) \<subseteq> dom ?st"
    by (auto simp: init_lookup dom_def)
  have i0: "0 < length (serverUrls ?cfg)" and i1: "1 < length (serverUrls ?cfg)"
    by (simp_all add: f)
  have c0: "0 < length (begun ?b)" by (rule first_cycle(2))
  have al: "\<forall>i < length (serverUrls ?cfg). settled ?b 0 i"
  proof (intro allI impI)
    fix i assume "i < length (serverUrls ?cfg)"
    then have "i = 0 \<or> i = 1" by (auto simp: f)
    then show "settled ?b 0 i" using w(1,2) by auto
  qed
  have u0: "isUp (written_by ?b 0 0)"
    unfolding check_isUp[OF con w(1)] first_read(2)[OF i0]
    by (simp add: new_record_isUp two_targets_probes f)
  have u1: "\<not> isUp (written_by ?b 0 1)"
    unfolding check_isUp[OF con w(2)] first_read(2)[OF i1]
    by (simp add: new_record_isUp two_targets_probes)
  have pr: "isl (fst (makeHttpRequest ?cfg (first_ok 1)))"
    by (simp add: two_targets_probes)
  note t = checks_never_reject[where cfg = ?cfg and envs = first_ok and sched = "[Settle 0 0, Settle 0 1]"
      and st = ?st and evs = "[Tick first_ok, Settle 0 0, Settle 0 1]" and envs' = first_ok
      and env = "first_ok 1" and url = "''https://bad.example''" and p = initialStatus
      and serverStatus = ?st]
  have same: "run ?cfg [Tick first_ok, Settle 0 0, Settle 0 1] (boot ?st) = ?b"
    by (simp add: start_def)
  from t c0 al obtain rep where rep: "performHealthCheck_summary ?b 0 = Some rep" by blast
  from t rep have sum: "upCount rep + downCount rep = 2" by (simp add: f)
  from t rep i1 have nr: "\<not> isl (results rep ! 1)" by blast
  from t rep have up: "upCount rep =
       int (length (filter (\<lambda>r. case r of Inr v \<Rightarrow> isUp v | Inl e \<Rightarrow> False) (results rep)))"
    unfolding same by blast
  from t dm w(1) have r0: "result_of ?b 0 0 =
      Inr (new_record ?cfg (env_of ?b 0 0) (serverUrls ?cfg ! 0) (the (read_by ?b 0 0)))"
    unfolding same by blast
  from t dm w(2) have r1: "result_of ?b 0 1 =
      Inr (new_record ?cfg (env_of ?b 0 1) (serverUrls ?cfg ! 1) (the (read_by ?b 0 1)))"
    unfolding same by blast
  have nr1: "\<not> isl (result_of ?b 0 1)" unfolding r1 by simp
  have rs: "results rep = [Inr (written_by ?b 0 0), Inr (written_by ?b 0 1)]"
    using rep unfolding summary_settled[OF con c0 al] by (auto simp: f upt_rec)
  have upc: "upCount rep = 1" unfolding up rs using u0 u1 by simp
  with sum have dnc: "downCount rep = 1" by simp
  have p0: "posts (effects_of ?b 0 0) = []"
    using u0 first_read(1)[OF i0, of first_ok "[Settle 0 0, Settle 0 1]"]
    unfolding check_posts[OF con w(1)] by (simp add: initialStatus_def)
  have p1: "length (posts (effects_of ?b 0 1)) = 1 \<and> list_all is_DownAlert (posts (effects_of ?b 0 1))"
    using u1 first_read(1)[OF i1, of first_ok "[Settle 0 0, Settle 0 1]"]
    unfolding check_posts[OF con w(2)] by (simp add: initialStatus_def)
  have su: "map_option upCount (performHealthCheck_summary ?b 0) = Some 1"
    unfolding rep using upc by simp
  have sd: "map_option downCount (performHealthCheck_summary ?b 0) = Some 1"
    unfolding rep using dnc by simp
  show ?thesis
    using dm f(2) pr w(1,2) su sd nr1 p0 p1 by simp
qed

section \<open>Webhook failures\<close>

lemma loop_post_indep:
  "makeHttpRequest_loop cfg (env\<lparr>axios_post := g\<rparr>) st a now = makeHttpRequest_loop cfg env st a now"
proof (induction cfg env st a now rule: makeHttpRequest_loop.induct)
  case (1 cfg env startTime attempt now)
  show ?case
    apply (subst makeHttpRequest_loop.simps)
    apply (subst (2) makeHttpRequest_loop.simps)
    using 1 by (auto split: attempt_outcome.splits)
qed

lemma probe_post_indep: "makeHttpRequest cfg (env\<lparr>axios_post := g\<rparr>) = makeHttpRequest cfg env"
  by (simp add: makeHttpRequest_def loop_post_indep)

lemma webhook_effects:
  "sendWebhookMessage env msg mt =
     (Inr (), [Post msg, Log (case axios_post env msg of
                                PostResponse s \<Rightarrow> if s = 200 then LogSent mt else LogSendFailedHttp mt s
                              | PostFailure m \<Rightarrow> LogSendError mt m)])"
  by (simp add: sendWebhookMessage_def split: post_outcome.splits)

lemma handle_post_indep:
  "fst (handleStatusChange cfg (env\<lparr>axios_post := g\<rparr>) url prev cur) = fst (handleStatusChange cfg env url prev cur)
   \<and> filter (\<lambda>e. \<not> is_Log e) (snd (handleStatusChange cfg (env\<lparr>axios_post := g\<rparr>) url prev cur))
     = filter (\<lambda>e. \<not> is_Log e) (snd (handleStatusChange cfg env url prev cur))"
  by (cases prev)
     (simp_all add: handleStatusChange_def sendDownAlert_def sendRecoveryAlert_def webhook_effects)

lemma check_post_indep:
  "fst (checkServerHealth_from cfg (env\<lparr>axios_post := g\<rparr>) url prev st) = fst (checkServerHealth_from cfg env url prev st)
   \<and> fst (snd (checkServerHealth_from cfg (env\<lparr>axios_post := g\<rparr>) url prev st))
     = fst (snd (checkServerHealth_from cfg env url prev st))
   \<and> filter (\<lambda>e. \<not> is_Log e) (snd (snd (checkServerHealth_from cfg (env\<lparr>axios_post := g\<rparr>) url prev st)))
     = filter (\<lambda>e. \<not> is_Log e) (snd (snd (checkServerHealth_from cfg env url prev st)))"
proof -
  obtain probe t es where m: "makeHttpRequest cfg env = (probe, t, es)"
    by (cases "makeHttpRequest cfg env") auto
  show ?thesis
  proof (cases "case try_block cfg url prev probe t of Inl m \<Rightarrow> catch_block url prev m t | Inr x \<Rightarrow> Inr x")
    case (Inl e)
    then show ?thesis
      by (simp add: checkServerHealth_from_def probe_post_indep m)
  next
    case (Inr x)
    obtain cur ls where x: "x = (cur, ls)" by (cases x) auto
    obtain r hs where h: "handleStatusChange cfg env url prev cur = (r, hs)"
      by (cases "handleStatusChange cfg env url prev cur") auto
    obtain r' hs' where h': "handleStatusChange cfg (env\<lparr>axios_post := g\<rparr>) url prev cur = (r', hs')"
      by (cases "handleStatusChange cfg (env\<lparr>axios_post := g\<rparr>) url prev cur") auto
    from handle_post_indep[where cfg=cfg and env=env and g=g and url=url and prev=prev and cur=cur] h h'
    have e: "r' = r" "filter (\<lambda>e. \<not> is_Log e) hs' = filter (\<lambda>e. \<not> is_Log e) hs"
      by simp_all
    show ?thesis
      by (cases r) (simp_all add: checkServerHealth_from_def probe_post_indep m Inr x h h' e)
  qed
qed

lemma step_Settle_valid:
  assumes "c < length (begun b)" and "i < length (begun b ! c)" and "outcomes b (c, i) = None"
  shows "step cfg (Settle c i) b =
     b\<lparr> status_map := fst (snd (checkServerHealth_from cfg (env_of b c i) (url_of b c i) (read_by b c i) (status_map b))),
        outcomes := (outcomes b)((c, i) \<mapsto>
           (fst (checkServerHealth_from cfg (env_of b c i) (url_of b c i) (read_by b c i) (status_map b)),
            snd (snd (checkServerHealth_from cfg (env_of b c i) (url_of b c i) (read_by b c i) (status_map b))))) \<rparr>"
  using assms by (simp add: case_prod_beta)

text \<open>
  Two runs of the same events that differ only in what the webhook answers stay in
  step: the same map, the same checks begun, the same checks settled, with the same
  results and, console lines apart, the same effects.
\<close>

lemma webhook_sim:
  "status_map (run cfg (map (with_webhook h) evs) (boot st)) = status_map (run cfg evs (boot st))
   \<and> length (begun (run cfg (map (with_webhook h) evs) (boot st))) = length (begun (run cfg evs (boot st)))
   \<and> (\<forall>c < length (begun (run cfg evs (boot st))).
        length (begun (run cfg (map (with_webhook h) evs) (boot st)) ! c) = length (begun (run cfg evs (boot st)) ! c)
        \<and> (\<forall>i < length (begun (run cfg evs (boot st)) ! c).
              url_of (run cfg (map (with_webhook h) evs) (boot st)) c i = url_of (run cfg evs (boot st)) c i
            \<and> read_by (run cfg (map (with_webhook h) evs) (boot st)) c i = read_by (run cfg evs (boot st)) c i
            \<and> env_of (run cfg (map (with_webhook h) evs) (boot st)) c i =
                (env_of (run cfg evs (boot st)) c i)
                  \<lparr>axios_post := axios_post (env_of (run cfg (map (with_webhook h) evs) (boot st)) c i)\<rparr>))
   \<and> (\<forall>c i. (settled (run cfg (map (with_webhook h) evs) (boot st)) c i \<longleftrightarrow> settled (run cfg evs (boot st)) c i)
        \<and> (settled (run cfg evs (boot st)) c i \<longrightarrow>
              result_of (run cfg (map (with_webhook h) evs) (boot st)) c i = result_of (run cfg evs (boot st)) c i
            \<and> filter (\<lambda>e. \<not> is_Log e) (effects_of (run cfg (map (with_webhook h) evs) (boot st)) c i)
                = filter (\<lambda>e. \<not> is_Log e) (effects_of (run cfg evs (boot st)) c i)))"
proof (induction evs rule: rev_induct)
  case Nil
  show ?case by (simp add: run_def boot_def)
next
  case (snoc e evs)
  let ?r = "run cfg evs (boot st)"
  let ?r' = "run cfg (map (with_webhook h) evs) (boot st)"
  let ?nl = "\<lambda>e. \<not> is_Log e"
  have m: "map (with_webhook h) (evs @ [x]) = map (with_webhook h) evs @ [with_webhook h x]" for x
    by simp
  from snoc have S1: "status_map ?r' = status_map ?r" by blast
  from snoc have S2: "length (begun ?r') = length (begun ?r)" by blast
  from snoc have S3: "\<forall>c < length (begun ?r). length (begun ?r' ! c) = length (begun ?r ! c)
        \<and> (\<forall>i < length (begun ?r ! c).
              url_of ?r' c i = url_of ?r c i \<and> read_by ?r' c i = read_by ?r c i
            \<and> env_of ?r' c i = (env_of ?r c i)\<lparr>axios_post := axios_post (env_of ?r' c i)\<rparr>)"
    by blast
  from snoc have S4: "\<forall>c i. (settled ?r' c i \<longleftrightarrow> settled ?r c i)
        \<and> (settled ?r c i \<longrightarrow> result_of ?r' c i = result_of ?r c i
            \<and> filter ?nl (effects_of ?r' c i) = filter ?nl (effects_of ?r c i))"
    by blast
  show ?case
  proof (cases e)
    case (Tick envs)
    let ?envs' = "\<lambda>i. (envs i)\<lparr>axios_post := h envs i\<rparr>"
    have s: "step cfg e ?r = ?r\<lparr> begun := begun ?r @ [performHealthCheck_begin cfg envs (status_map ?r)] \<rparr>"
      by (simp add: Tick)
    have s': "step cfg (with_webhook h e) ?r' =
        ?r'\<lparr> begun := begun ?r' @ [performHealthCheck_begin cfg ?envs' (status_map ?r)] \<rparr>"
      by (simp add: Tick S1)
    have new: "\<forall>i < length (serverUrls cfg).
          fst (performHealthCheck_begin cfg ?envs' (status_map ?r) ! i) = fst (performHealthCheck_begin cfg envs (status_map ?r) ! i)
        \<and> fst (snd (performHealthCheck_begin cfg ?envs' (status_map ?r) ! i)) = fst (snd (performHealthCheck_begin cfg envs (status_map ?r) ! i))
        \<and> snd (snd (performHealthCheck_begin cfg ?envs' (status_map ?r) ! i)) =
            (snd (snd (performHealthCheck_begin cfg envs (status_map ?r) ! i)))
              \<lparr>axios_post := axios_post (snd (snd (performHealthCheck_begin cfg ?envs' (status_map ?r) ! i)))\<rparr>"
      by (simp add: begin_nth)
    show ?thesis
      unfolding m run_snoc s s'
      using S1 S2 S3 S4 new
      by (simp add: nth_append begin_length less_Suc_eq)
  next
    case (Settle c i)
    let ?V = "c < length (begun ?r) \<and> i < length (begun ?r ! c) \<and> outcomes ?r (c, i) = None"
    let ?V' = "c < length (begun ?r') \<and> i < length (begun ?r' ! c) \<and> outcomes ?r' (c, i) = None"
    from S4 have N: "outcomes ?r' (c, i) = None \<longleftrightarrow> outcomes ?r (c, i) = None" by blast
    from S3 have L: "c < length (begun ?r) \<Longrightarrow> length (begun ?r' ! c) = length (begun ?r ! c)" by blast
    have V: "?V' \<longleftrightarrow> ?V" unfolding S2 N using L by auto
    show ?thesis
    proof (cases ?V)
      case False
      with V have F': "\<not> ?V'" by simp
      show ?thesis
        unfolding m run_snoc Settle with_webhook.simps step_Settle_idle[OF False] step_Settle_idle[OF F']
        by (rule snoc)
    next
      case True
      with V have T': ?V' by simp
      from True have c: "c < length (begun ?r)" and i: "i < length (begun ?r ! c)"
        and n: "outcomes ?r (c, i) = None" by simp_all
      from T' have c': "c < length (begun ?r')" and i': "i < length (begun ?r' ! c)"
        and n': "outcomes ?r' (c, i) = None" by simp_all
      from S3 c i have u: "url_of ?r' c i = url_of ?r c i" and p: "read_by ?r' c i = read_by ?r c i"
        and en: "env_of ?r' c i = (env_of ?r c i)\<lparr>axios_post := axios_post (env_of ?r' c i)\<rparr>"
        by blast+
      let ?K = "checkServerHealth_from cfg (env_of ?r c i) (url_of ?r c i) (read_by ?r c i) (status_map ?r)"
      let ?K' = "checkServerHealth_from cfg (env_of ?r' c i) (url_of ?r' c i) (read_by ?r' c i) (status_map ?r')"
      have K: "fst ?K' = fst ?K \<and> fst (snd ?K') = fst (snd ?K) \<and> filter ?nl (snd (snd ?K')) = filter ?nl (snd (snd ?K))"
        unfolding u p S1
        by (subst en, subst (2) en, subst (3) en) (rule check_post_indep)
      have s: "step cfg (Settle c i) ?r =
          ?r\<lparr> status_map := fst (snd ?K), outcomes := (outcomes ?r)((c, i) \<mapsto> (fst ?K, snd (snd ?K))) \<rparr>"
        by (rule step_Settle_valid[OF c i n])
      have s': "step cfg (Settle c i) ?r' =
          ?r'\<lparr> status_map := fst (snd ?K'), outcomes := (outcomes ?r')((c, i) \<mapsto> (fst ?K', snd (snd ?K'))) \<rparr>"
        by (rule step_Settle_valid[OF c' i' n'])
      show ?thesis
        unfolding m run_snoc Settle with_webhook.simps s s'
        using S2 S3 S4 K by simp
    qed
  qed
qed

lemma summary_Some:
  assumes "c < length (begun b)"
    and "list_all (\<lambda>i. outcomes b (c, i) \<noteq> None) [0..<length (begun b ! c)]"
  shows "performHealthCheck_summary b c =
     Some \<lparr> upCount = int (length (filter (\<lambda>r. case r of Inr v \<Rightarrow> isUp v | Inl e \<Rightarrow> False)
                (map (\<lambda>i. result_of b c i) [0..<length (begun b ! c)]))),
            downCount = int (length (filter (\<lambda>r. \<not> (case r of Inr v \<Rightarrow> isUp v | Inl e \<Rightarrow> False))
                (map (\<lambda>i. result_of b c i) [0..<length (begun b ! c)]))),
            results = map (\<lambda>i. result_of b c i) [0..<length (begun b ! c)],
            effects = map (\<lambda>i. effects_of b c i) [0..<length (begun b ! c)] \<rparr>"
  unfolding performHealthCheck_summary_def Let_def using assms
  by (simp add: comp_def count_results_eq del: upt_Suc)

lemma summary_None:
  assumes "\<not> (c < length (begun b) \<and> list_all (\<lambda>i. outcomes b (c, i) \<noteq> None) [0..<length (begun b ! c)])"
  shows "performHealthCheck_summary b c = None"
  unfolding performHealthCheck_summary_def by (rule if_not_P[OF assms])

lemma summary_sim:
  "map_option results (performHealthCheck_summary (run cfg (map (with_webhook h) evs) (boot st)) c)
     = map_option results (performHealthCheck_summary (run cfg evs (boot st)) c)
   \<and> map_option upCount (performHealthCheck_summary (run cfg (map (with_webhook h) evs) (boot st)) c)
     = map_option upCount (performHealthCheck_summary (run cfg evs (boot st)) c)
   \<and> map_option downCount (performHealthCheck_summary (run cfg (map (with_webhook h) evs) (boot st)) c)
     = map_option downCount (performHealthCheck_summary (run cfg evs (boot st)) c)
   \<and> map_option (\<lambda>rep. map (filter (\<lambda>e. \<not> is_Log e)) (effects rep))
        (performHealthCheck_summary (run cfg (map (with_webhook h) evs) (boot st)) c)
     = map_option (\<lambda>rep. map (filter (\<lambda>e. \<not> is_Log e)) (effects rep))
        (performHealthCheck_summary (run cfg evs (boot st)) c)"
proof -
  let ?r = "run cfg evs (boot st)"
  let ?r' = "run cfg (map (with_webhook h) evs) (boot st)"
  let ?nl = "\<lambda>e. \<not> is_Log e"
  note w = webhook_sim[of cfg h evs st]
  from w have S2: "length (begun ?r') = length (begun ?r)" by blast
  from w have S3: "c < length (begun ?r) \<Longrightarrow> length (begun ?r' ! c) = length (begun ?r ! c)" by blast
  from w have S4: "settled ?r' c i \<longleftrightarrow> settled ?r c i" for i by blast
  from w have S5: "settled ?r c i \<Longrightarrow> result_of ?r' c i = result_of ?r c i
            \<and> filter ?nl (effects_of ?r' c i) = filter ?nl (effects_of ?r c i)" for i
    by blast
  let ?C = "c < length (begun ?r) \<and> list_all (\<lambda>i. outcomes ?r (c, i) \<noteq> None) [0..<length (begun ?r ! c)]"
  let ?C' = "c < length (begun ?r') \<and> list_all (\<lambda>i. outcomes ?r' (c, i) \<noteq> None) [0..<length (begun ?r' ! c)]"
  have C: "?C' \<longleftrightarrow> ?C" unfolding S2 using S3 S4 by (auto simp: list_all_iff)
  show ?thesis
  proof (cases ?C)
    case False
    with C have F': "\<not> ?C'" by simp
    show ?thesis unfolding summary_None[OF False] summary_None[OF F'] by simp
  next
    case True
    with C have T': ?C' by simp
    from True have c: "c < length (begun ?r)"
      and a: "list_all (\<lambda>i. outcomes ?r (c, i) \<noteq> None) [0..<length (begun ?r ! c)]" by simp_all
    from T' have c': "c < length (begun ?r')"
      and a': "list_all (\<lambda>i. outcomes ?r' (c, i) \<noteq> None) [0..<length (begun ?r' ! c)]" by simp_all
    have rs: "map (\<lambda>i. result_of ?r' c i) [0..<length (begun ?r ! c)] =
        map (\<lambda>i. result_of ?r c i) [0..<length (begun ?r ! c)]"
    proof (rule map_cong[OF refl])
      fix i assume "i \<in> set [0..<length (begun ?r ! c)]"
      with a have "settled ?r c i" by (simp add: list_all_iff)
      from S5[OF this] show "result_of ?r' c i = result_of ?r c i" by simp
    qed
    have es: "map (\<lambda>i. filter ?nl (effects_of ?r' c i)) [0..<length (begun ?r ! c)] =
        map (\<lambda>i. filter ?nl (effects_of ?r c i)) [0..<length (begun ?r ! c)]"
    proof (rule map_cong[OF refl])
      fix i assume "i \<in> set [0..<length (begun ?r ! c)]"
      with a have "settled ?r c i" by (simp add: list_all_iff)
      from S5[OF this] show "filter ?nl (effects_of ?r' c i) = filter ?nl (effects_of ?r c i)" by simp
    qed
    show ?thesis
      unfolding summary_Some[OF c a] summary_Some[OF c' a'] S3[OF c]
      by (simp add: rs es comp_def del: upt_Suc)
  qed
qed

lemma first_failure_run:
  "settled (start one_target all_timeout [Settle 0 0]) 0 0"
  "status_map (start one_target all_timeout [Settle 0 0]) ''https://api.github.com'' =
     Some (written_by (start one_target all_timeout [Settle 0 0]) 0 0)"
  by (simp_all add: start_def run_def boot_def step_Settle_the
      performHealthCheck_begin_def one_target_facts init_lookup del: step.simps(2))

text \<open>
  Claim C8. \<open>sendWebhookMessage\<close> is always fulfilled, whatever the POST does: it makes
  one POST and writes one console line, which for a rejected POST or a status other
  than 200 reports the failure. What the POST does changes nothing else: a check writes
  the same record and gives the same result, and in every run, whatever the order in
  which cycles start and checks settle, the map holds the same records, the same checks
  have settled with the same results, the summaries logged have the same results and
  counts, and the same GETs, sleeps and POSTs are performed, whatever the webhook
  answers.
\<close>

theorem webhook_failure_is_logged_and_ignored:
  fixes cfg :: config and evs :: "event list" and st :: "string \<rightharpoonup> StatusRecord"
    and h :: "(nat \<Rightarrow> check_env) \<Rightarrow> nat \<Rightarrow> message \<Rightarrow> post_outcome" and r r' :: bot
  defines "r \<equiv> run cfg evs (boot st)"
    and "r' \<equiv> run cfg (map (with_webhook h) evs) (boot st)"
  shows "sendWebhookMessage env msg mt =
     (Inr (), [Post msg, Log (case axios_post env msg of
                                PostResponse s \<Rightarrow> if s = 200 then LogSent mt else LogSendFailedHttp mt s
                              | PostFailure m \<Rightarrow> LogSendError mt m)])
   \<and> fst (checkServerHealth cfg (env\<lparr>axios_post := g\<rparr>) url st) = fst (checkServerHealth cfg env url st)
   \<and> fst (snd (checkServerHealth cfg (env\<lparr>axios_post := g\<rparr>) url st)) = fst (snd (checkServerHealth cfg env url st))
   \<and> filter (\<lambda>e. \<not> is_Log e) (snd (snd (checkServerHealth cfg (env\<lparr>axios_post := g\<rparr>) url st)))
     = filter (\<lambda>e. \<not> is_Log e) (snd (snd (checkServerHealth cfg env url st)))
   \<and> status_map r' = status_map r
   \<and> map (map fst) (begun r') = map (map fst) (begun r)
   \<and> map (map (\<lambda>x. fst (snd x))) (begun r') = map (map (\<lambda>x. fst (snd x))) (begun r)
   \<and> (\<forall>c i. map_option fst (outcomes r' (c, i)) = map_option fst (outcomes r (c, i)))
   \<and> (\<forall>c i. map_option (\<lambda>out. filter (\<lambda>e. \<not> is_Log e) (snd out)) (outcomes r' (c, i))
            = map_option (\<lambda>out. filter (\<lambda>e. \<not> is_Log e) (snd out)) (outcomes r (c, i)))
   \<and> (\<forall>c. map_option results (performHealthCheck_summary r' c)
            = map_option results (performHealthCheck_summary r c))
   \<and> (\<forall>c. map_option upCount (performHealthCheck_summary r' c)
            = map_option upCount (performHealthCheck_summary r c))
   \<and> (\<forall>c. map_option downCount (performHealthCheck_summary r' c)
            = map_option downCount (performHealthCheck_summary r c))
   \<and> (\<forall>c. map_option (\<lambda>rep. map (filter (\<lambda>e. \<not> is_Log e)) (effects rep)) (performHealthCheck_summary r' c)
            = map_option (\<lambda>rep. map (filter (\<lambda>e. \<not> is_Log e)) (effects rep)) (performHealthCheck_summary r c))
   \<and> status_map (start cfg (\<lambda>i. (envs i)\<lparr>axios_post := h envs i\<rparr>) (map (with_webhook h) sched))
       = status_map (start cfg envs sched)"
proof -
  let ?nl = "\<lambda>e. \<not> is_Log e"
  note w = webhook_sim[of cfg h evs st, folded r_def r'_def]
  note k = check_post_indep[where cfg=cfg and env=env and g=g and url=url and prev="st url" and st=st]
  have a: "sendWebhookMessage env msg mt =
     (Inr (), [Post msg, Log (case axios_post env msg of
                                PostResponse s \<Rightarrow> if s = 200 then LogSent mt else LogSendFailedHttp mt s
                              | PostFailure m \<Rightarrow> LogSendError mt m)])"
    by (rule webhook_effects)
  have b1: "fst (checkServerHealth cfg (env\<lparr>axios_post := g\<rparr>) url st) = fst (checkServerHealth cfg env url st)"
    unfolding checkServerHealth_def using k by blast
  have b2: "fst (snd (checkServerHealth cfg (env\<lparr>axios_post := g\<rparr>) url st)) = fst (snd (checkServerHealth cfg env url st))"
    unfolding checkServerHealth_def using k by blast
  have b3: "filter ?nl (snd (snd (checkServerHealth cfg (env\<lparr>axios_post := g\<rparr>) url st)))
     = filter ?nl (snd (snd (checkServerHealth cfg env url st)))"
    unfolding checkServerHealth_def using k by blast
  from w have s1: "status_map r' = status_map r" by blast
  from w have S2: "length (begun r') = length (begun r)" by blast
  from w have S3: "\<forall>c < length (begun r). length (begun r' ! c) = length (begun r ! c)
        \<and> (\<forall>i < length (begun r ! c). url_of r' c i = url_of r c i \<and> read_by r' c i = read_by r c i)"
    by blast
  have u: "map (map fst) (begun r') = map (map fst) (begun r)"
    using S2 S3 by (intro nth_equalityI) simp_all
  have p: "map (map (\<lambda>x. fst (snd x))) (begun r') = map (map (\<lambda>x. fst (snd x))) (begun r)"
    using S2 S3 by (intro nth_equalityI) simp_all
  from w have S4: "settled r' c i \<longleftrightarrow> settled r c i" for c i by blast
  from w have S5: "settled r c i \<Longrightarrow> result_of r' c i = result_of r c i
            \<and> filter ?nl (effects_of r' c i) = filter ?nl (effects_of r c i)" for c i
    by blast
  have o1: "\<forall>c i. map_option fst (outcomes r' (c, i)) = map_option fst (outcomes r (c, i))"
  proof (intro allI)
    fix c i
    show "map_option fst (outcomes r' (c, i)) = map_option fst (outcomes r (c, i))"
    proof (cases "outcomes r (c, i)")
      case None
      with S4[of c i] show ?thesis by (cases "outcomes r' (c, i)") auto
    next
      case (Some out)
      then have s: "settled r c i" by simp
      with S4[of c i] obtain out' where o': "outcomes r' (c, i) = Some out'" by auto
      from S5[OF s] show ?thesis by (simp add: Some o')
    qed
  qed
  have o2: "\<forall>c i. map_option (\<lambda>out. filter ?nl (snd out)) (outcomes r' (c, i))
            = map_option (\<lambda>out. filter ?nl (snd out)) (outcomes r (c, i))"
  proof (intro allI)
    fix c i
    show "map_option (\<lambda>out. filter ?nl (snd out)) (outcomes r' (c, i))
            = map_option (\<lambda>out. filter ?nl (snd out)) (outcomes r (c, i))"
    proof (cases "outcomes r (c, i)")
      case None
      with S4[of c i] show ?thesis by (cases "outcomes r' (c, i)") auto
    next
      case (Some out)
      then have s: "settled r c i" by simp
      with S4[of c i] obtain out' where o': "outcomes r' (c, i) = Some out'" by auto
      from S5[OF s] show ?thesis by (simp add: Some o')
    qed
  qed
  note ss = summary_sim[of cfg h evs st, folded r_def r'_def]
  have m1: "\<forall>c. map_option results (performHealthCheck_summary r' c)
            = map_option results (performHealthCheck_summary r c)"
    using ss by blast
  have m2: "\<forall>c. map_option upCount (performHealthCheck_summary r' c)
            = map_option upCount (performHealthCheck_summary r c)"
    using ss by blast
  have m3: "\<forall>c. map_option downCount (performHealthCheck_summary r' c)
            = map_option downCount (performHealthCheck_summary r c)"
    using ss by blast
  have m4: "\<forall>c. map_option (\<lambda>rep. map (filter ?nl) (effects rep)) (performHealthCheck_summary r' c)
            = map_option (\<lambda>rep. map (filter ?nl) (effects rep)) (performHealthCheck_summary r c)"
    using ss by blast
  have z: "status_map (start cfg (\<lambda>i. (envs i)\<lparr>axios_post := h envs i\<rparr>) (map (with_webhook h) sched))
       = status_map (start cfg envs sched)"
    using webhook_sim[of cfg h "Tick envs # sched" "initServerStatus cfg"] by (simp add: start_def)
  from a b1 b2 b3 s1 u p o1 o2 m1 m2 m3 m4 z show ?thesis by (intro conjI)
qed

theorem webhook_failure_is_logged_and_ignored_witness:
  "sendWebhookMessage ((example_env gets_404)\<lparr>axios_post := post_refused\<rparr>)
       (DownAlert ''https://api.github.com'' ''No response'' 1 (Some 35)) ''DOWN alert'' =
     (Inr (), [Post (DownAlert ''https://api.github.com'' ''No response'' 1 (Some 35)),
               Log (LogSendError ''DOWN alert'' ''connect ECONNREFUSED'')])
   \<and> fst (checkServerHealth (default_config None) ((example_env gets_404)\<lparr>axios_post := post_refused\<rparr>)
          ''https://api.github.com'' (initServerStatus (default_config None))) =
       Inr \<lparr> isUp = False, lastCheck = Some 35, consecutiveFailures = 1, statusCode = Some 404,
             responseTime = Some 35, error = None \<rparr>
   \<and> filter (\<lambda>e. \<not> is_Log e)
        (snd (snd (checkServerHealth (default_config None) ((example_env gets_404)\<lparr>axios_post := post_refused\<rparr>)
          ''https://api.github.com'' (initServerStatus (default_config None))))) =
       [Get 1, Post (DownAlert ''https://api.github.com'' ''No response'' 1 (Some 35))]
   \<and> \<not> isUp (the (status_map
         (start one_target (\<lambda>i. (all_timeout i)\<lparr>axios_post := post_refused\<rparr>)
            (map (with_webhook (\<lambda>envs i. post_refused)) [Settle 0 0]))
         ''https://api.github.com''))"
proof -
  let ?b = "start one_target all_timeout [Settle 0 0]"
  note r = first_failure_run
  note con = consistent_start[of one_target all_timeout "[Settle 0 0]"]
  have d0: "\<not> isUp (written_by ?b 0 0)"
    unfolding check_isUp[OF con r(1)] first_read(2)[of 0 one_target all_timeout "[Settle 0 0]", simplified one_target_facts, simplified]
    using one_target_isUp(1)[of 0] by (simp add: new_record_isUp)
  note A = webhook_failure_is_logged_and_ignored[where env = "example_env gets_404" and g = post_refused
      and cfg = "default_config None" and url = "''https://api.github.com''"
      and st = "initServerStatus (default_config None)" and evs = "[]"
      and msg = "DownAlert ''https://api.github.com'' ''No response'' 1 (Some 35)" and mt = "''DOWN alert''"]
  note B = webhook_failure_is_logged_and_ignored[where env = "(example_env gets_404)\<lparr>axios_post := post_refused\<rparr>"
      and msg = "DownAlert ''https://api.github.com'' ''No response'' 1 (Some 35)" and mt = "''DOWN alert''"
      and evs = "[]"]
  note C = webhook_failure_is_logged_and_ignored[where cfg = one_target and envs = all_timeout
      and h = "\<lambda>envs i. post_refused" and sched = "[Settle 0 0]" and evs = "[]"]
  from C have e: "status_map (start one_target (\<lambda>i. (all_timeout i)\<lparr>axios_post := post_refused\<rparr>)
            (map (with_webhook (\<lambda>envs i. post_refused)) [Settle 0 0])) = status_map ?b"
    by blast
  have x: "sendWebhookMessage ((example_env gets_404)\<lparr>axios_post := post_refused\<rparr>)
       (DownAlert ''https://api.github.com'' ''No response'' 1 (Some 35)) ''DOWN alert'' =
     (Inr (), [Post (DownAlert ''https://api.github.com'' ''No response'' 1 (Some 35)),
               Log (LogSendError ''DOWN alert'' ''connect ECONNREFUSED'')])"
    using B by (simp add: post_refused_def)
  have y: "fst (checkServerHealth (default_config None) ((example_env gets_404)\<lparr>axios_post := post_refused\<rparr>)
          ''https://api.github.com'' (initServerStatus (default_config None))) =
       Inr \<lparr> isUp = False, lastCheck = Some 35, consecutiveFailures = 1, statusCode = Some 404,
             responseTime = Some 35, error = None \<rparr>
   \<and> filter (\<lambda>e. \<not> is_Log e)
        (snd (snd (checkServerHealth (default_config None) ((example_env gets_404)\<lparr>axios_post := post_refused\<rparr>)
          ''https://api.github.com'' (initServerStatus (default_config None))))) =
       [Get 1, Post (DownAlert ''https://api.github.com'' ''No response'' 1 (Some 35))]"
    using A by (simp add: check_404_example)
  have z: "\<not> isUp (the (status_map
         (start one_target (\<lambda>i. (all_timeout i)\<lparr>axios_post := post_refused\<rparr>)
            (map (with_webhook (\<lambda>envs i. post_refused)) [Settle 0 0]))
         ''https://api.github.com''))"
    unfolding e r(2) using d0 by simp
  from x y z show ?thesis by simp
qed

end
